theory Spec2Isabelle
  imports Main "HOL-Library.Sublist"
begin

section \<open>The request-dispatch core of goweb\<close>

text \<open>
  The development embeds the dispatch core of the package: the per-request
  \<open>Context\<close> with its cursor and handler chain (context.go), the gzip response
  wrapper (context.go), the route groups (router.go) and the dispatcher
  \<open>ServeHTTP\<close> with its two recovery scopes in \<open>safelyHandle\<close>.

  Packages outside the repository (net/http, compress/gzip, regexp) are represented
  by the little of their behaviour that the core relies on; each such place says so.
\<close>

subsection \<open>Requests and response writers\<close>

text \<open>
  Of \<open>*http.Request\<close> the core reads the method, \<open>URL.Path\<close>, the
  \<open>Accept-Encoding\<close> header and the error returned by \<open>ParseForm()\<close>
  (\<open>None\<close> for \<open>nil\<close>).
\<close>

record Request =
  Method :: string
  Path :: string
  AcceptEncoding :: string
  ParseForm :: "string option"

text \<open>
  Bytes handed to a writer: plain bytes, or the gzip stream that encodes a sequence
  of writes.
\<close>

datatype chunk = Raw string | Gz "chunk list"

text \<open>
  A header value is a string, or the MIME type that \<open>http.DetectContentType\<close>
  computes for some bytes (a library function, kept symbolic).
\<close>

datatype hval = Str string | Detected chunk

text \<open>
  The transport's \<open>http.ResponseWriter\<close>, the \<open>w\<close> that \<open>ServeHTTP\<close> receives:
  its header map, the status line once written, and the body bytes sent so far.
  As in net/http, the first \<open>Write\<close> sends status 200 when no status was written,
  and a second \<open>WriteHeader\<close> has no effect.
\<close>

record response =
  header :: "string \<rightharpoonup> hval"
  status :: "int option"
  body :: "chunk list"

definition transport_Write :: "chunk \<Rightarrow> response \<Rightarrow> response" where
  "transport_Write b r =
     r\<lparr>status := (case status r of None \<Rightarrow> Some 200 | Some s \<Rightarrow> Some s),
       body := body r @ [b]\<rparr>"

definition transport_WriteHeader :: "int \<Rightarrow> response \<Rightarrow> response" where
  "transport_WriteHeader code r =
     r\<lparr>status := (case status r of None \<Rightarrow> Some code | Some s \<Rightarrow> Some s)\<rparr>"

text \<open>
  \<open>Context.Writer\<close> is an interface value: the transport's writer \<open>W\<close>, or a pointer
  \<open>GW a\<close> to a \<open>gzipWriter\<close> allocated by \<open>wrapGzip\<close>. The \<open>gzipWriter\<close> structs live
  in a store, addressed by their position, because the cleanup closure and
  \<open>Context.Writer\<close> alias the same struct.

  \<open>type gzipWriter struct { http.ResponseWriter; gz *gzip.Writer }\<close>:
  of the \<open>gzip.Writer\<close> the model keeps the data it has accepted and whether it has
  been closed; the encoded stream reaches the underlying writer when it is closed,
  and a \<open>Write\<close> after \<open>Close\<close> is refused with an error.
\<close>

datatype writer_ref = W | GW nat

record gzipWriter =
  ResponseWriter :: writer_ref
  gz_data :: "chunk list"
  gz_closed :: bool

subsection \<open>Handlers\<close>

text \<open>
  \<open>type HandlerFunc func(ctx *Context)\<close>. A handler is one of the two middlewares
  of context.go, application code, or \<open>nil\<close> (the zero value, which fills the
  unused slots of a backing array; calling it panics). Application code is represented by the
  sequence of operations it performs on the context: \<open>c.Next()\<close>, \<open>c.Abort()\<close>,
  \<open>panic(v)\<close> (with the description of \<open>v\<close>), \<open>c.Writer.Write(b)\<close> and an
  assignment to \<open>c.Err\<close>. The fields \<open>index\<close> and \<open>handlers\<close> are unexported, so
  application code reaches them through \<open>Next\<close> and \<open>Abort\<close> only. Application
  code that recovers its own panics is not represented.
\<close>

datatype stmt = CallNext | CallAbort | Panic string | Write string | SetErr string

datatype HandlerFunc = Func "stmt list" | GzipMiddlewareFunc | CompressionMiddlewareFunc | NilFunc

type_synonym HandlersChain = "HandlerFunc list"

subsection \<open>The execution context\<close>

text \<open>
  An observation log, not a field of the Go struct: which chain positions had their
  handler invoked, where \<open>Abort\<close> was called, and when the two hooks were entered
  (the post-dispatch hook with the value of \<open>c.Err\<close> it finds).
\<close>

datatype event = Invoked nat | Aborted | PreProcessed | PostProcessed "string option"

text \<open>
  \<open>type Context struct\<close>: the fields the dispatch core uses. \<open>index\<close> is a Go \<open>int\<close>;
  the constant in \<open>Abort\<close> only compiles where \<open>int\<close> has 64 bits, so \<open>index\<close> ranges
  over the 64-bit two's complement integers and \<open>c.index++\<close> wraps (\<open>inc64\<close>).
  \<open>handlers\<close> is the slice read at dispatch; a \<open>nil\<close> slice is the empty list
  (a registered chain is never empty, see \<open>register\<close>).
  \<open>resp\<close> and \<open>gzs\<close> are the objects that \<open>Writer\<close> points into, \<open>trace\<close> is the
  observation log.
\<close>

record Context =
  Request :: Request
  Writer :: writer_ref
  index :: int
  handlers :: HandlersChain
  Err :: "string option"
  resp :: response
  gzs :: "gzipWriter list"
  trace :: "event list"

datatype outcome = Returned Context | Panicked string Context

fun ctx_of :: "outcome \<Rightarrow> Context" where
  "ctx_of (Returned c) = c"
| "ctx_of (Panicked m c) = c"

definition inc64 :: "int \<Rightarrow> int" where
  "inc64 i = (if i = 2 ^ 63 - 1 then - (2 ^ 63) else i + 1)"

definition sentinel :: int where
  "sentinel = 10000000000000"

text \<open>\<open>func (c *Context) Abort()\<close>\<close>

definition Abort :: "Context \<Rightarrow> Context" where
  "Abort c = c\<lparr>index := sentinel, trace := trace c @ [Aborted]\<rparr>"

subsection \<open>The gzip wrapper\<close>

text \<open>\<open>gzip.Writer.Write\<close>: accepted while open, refused once closed.\<close>

definition gz_Write :: "chunk \<Rightarrow> gzipWriter \<Rightarrow> gzipWriter" where
  "gz_Write b g = (if gz_closed g then g else g\<lparr>gz_data := gz_data g @ [b]\<rparr>)"

text \<open>
  \<open>func (w *gzipWriter) Write(b []byte)\<close>. \<open>w.Header()\<close> is promoted from the
  embedded writer, so it is the header map of the transport; \<open>Get\<close> yields the empty
  string for a missing key.
\<close>

definition gzipWriter_Write :: "nat \<Rightarrow> chunk \<Rightarrow> Context \<Rightarrow> Context" where
  "gzipWriter_Write a b c =
     (let c1 = (if (case header (resp c) ''Content-Type'' of
                      None \<Rightarrow> True | Some (Str v) \<Rightarrow> v = [] | Some (Detected d) \<Rightarrow> False)
                then c\<lparr>resp := (resp c)\<lparr>header := (header (resp c))(''Content-Type'' \<mapsto> Detected b)\<rparr>\<rparr>
                else c)
      in if a < length (gzs c1) then c1\<lparr>gzs := (gzs c1)[a := gz_Write b (gzs c1 ! a)]\<rparr> else c1)"

text \<open>A call of \<open>Write\<close> through a writer interface value.\<close>

definition Writer_Write :: "writer_ref \<Rightarrow> chunk \<Rightarrow> Context \<Rightarrow> Context" where
  "Writer_Write r b c =
     (case r of W \<Rightarrow> c\<lparr>resp := transport_Write b (resp c)\<rparr>
              | GW a \<Rightarrow> gzipWriter_Write a b c)"

text \<open>
  \<open>func (w *gzipWriter) WriteHeader(statusCode int)\<close> forwards to the embedded
  writer, so every \<open>WriteHeader\<close> reaches the transport.
\<close>

definition Writer_WriteHeader :: "int \<Rightarrow> Context \<Rightarrow> Context" where
  "Writer_WriteHeader code c = c\<lparr>resp := transport_WriteHeader code (resp c)\<rparr>"

text \<open>
  \<open>func (w *gzipWriter) Close()\<close>: \<open>w.gz\<close> is never \<open>nil\<close> for a struct built by
  \<open>wrapGzip\<close>. Closing an open \<open>gzip.Writer\<close> hands the encoded stream to the writer
  it was created on; closing it again does nothing.
\<close>

definition gzipWriter_Close :: "nat \<Rightarrow> Context \<Rightarrow> Context" where
  "gzipWriter_Close a c =
     (if a < length (gzs c) then
        (let g = gzs c ! a in
         if gz_closed g then c
         else Writer_Write (ResponseWriter g) (Gz (gz_data g))
                (c\<lparr>gzs := (gzs c)[a := g\<lparr>gz_closed := True\<rparr>]\<rparr>))
      else c)"

text \<open>
  \<open>func wrapGzip(c *Context) func()\<close>: returns the updated context and the
  \<open>gzipWriter\<close> captured by the returned closure; running the closure is
  \<open>gzipWriter_Close\<close> on it.
\<close>

definition wrapGzip :: "Context \<Rightarrow> Context \<times> nat" where
  "wrapGzip c =
     (let c1 = c\<lparr>resp := (resp c)\<lparr>header := (header (resp c))(''Content-Encoding'' \<mapsto> Str ''gzip'')\<rparr>\<rparr>;
          gw = length (gzs c1)
      in (c1\<lparr>gzs := gzs c1 @ [\<lparr>ResponseWriter = Writer c1, gz_data = [], gz_closed = False\<rparr>],
             Writer := GW gw\<rparr>, gw))"

text \<open>\<open>strings.Contains\<close>\<close>

fun Contains :: "string \<Rightarrow> string \<Rightarrow> bool" where
  "Contains [] sub = (sub = [])"
| "Contains (x # xs) sub = (prefix sub (x # xs) \<or> Contains xs sub)"

text \<open>A deferred call runs on normal return and while a panic unwinds.\<close>

fun deferred :: "(Context \<Rightarrow> Context) \<Rightarrow> outcome \<Rightarrow> outcome" where
  "deferred f (Returned c) = Returned (f c)"
| "deferred f (Panicked m c) = Panicked m (f c)"

subsection \<open>The chain runner\<close>

text \<open>
  \<open>func (c *Context) Next()\<close> and the handlers it invokes call each other, and a
  chain longer than the sentinel of \<open>Abort\<close> can keep the loop running for ever, so
  the functions take the depth of calls they may use and yield \<open>None\<close> when that does
  not suffice. \<open>Next_loop\<close> is the \<open>for\<close> statement of \<open>Next\<close>; an index below 0 makes
  \<open>c.handlers[c.index]\<close> panic. \<open>call\<close> is the call of a \<open>HandlerFunc\<close> value and
  \<open>exec\<close> runs the operations of application code.
\<close>

fun Next :: "nat \<Rightarrow> Context \<Rightarrow> outcome option"
and Next_loop :: "nat \<Rightarrow> Context \<Rightarrow> outcome option"
and call :: "nat \<Rightarrow> HandlerFunc \<Rightarrow> Context \<Rightarrow> outcome option"
and exec :: "nat \<Rightarrow> stmt list \<Rightarrow> Context \<Rightarrow> outcome option"
and GzipMiddleware :: "nat \<Rightarrow> Context \<Rightarrow> outcome option"
and CompressionMiddleware :: "nat \<Rightarrow> Context \<Rightarrow> outcome option"
where
  "Next 0 c = None"
| "Next (Suc n) c = Next_loop n (c\<lparr>index := inc64 (index c)\<rparr>)"
| "Next_loop 0 c = None"
| "Next_loop (Suc n) c =
     (if index c < int (length (handlers c)) then
        (if index c < 0 then Some (Panicked ''runtime error: index out of range'' c)
         else case call n (handlers c ! nat (index c))
                     (c\<lparr>trace := trace c @ [Invoked (nat (index c))]\<rparr>) of
                None \<Rightarrow> None
              | Some (Panicked m c') \<Rightarrow> Some (Panicked m c')
              | Some (Returned c') \<Rightarrow> Next_loop n (c'\<lparr>index := inc64 (index c')\<rparr>))
      else Some (Returned c))"
| "call n (Func b) c = exec n b c"
| "call n GzipMiddlewareFunc c = GzipMiddleware n c"
| "call n CompressionMiddlewareFunc c = CompressionMiddleware n c"
| "call n NilFunc c =
     Some (Panicked ''runtime error: invalid memory address or nil pointer dereference'' c)"
| "exec n [] c = Some (Returned c)"
| "exec n (CallNext # b) c =
     (case Next n c of
        None \<Rightarrow> None
      | Some (Panicked m c') \<Rightarrow> Some (Panicked m c')
      | Some (Returned c') \<Rightarrow> exec n b c')"
| "exec n (CallAbort # b) c = exec n b (Abort c)"
| "exec n (Panic m # b) c = Some (Panicked m c)"
| "exec n (Write s # b) c = exec n b (Writer_Write (Writer c) (Raw s) c)"
| "exec n (SetErr s # b) c = exec n b (c\<lparr>Err := Some s\<rparr>)"
| "GzipMiddleware n c =
     (if \<not> Contains (AcceptEncoding (Request c)) ''gzip'' then Next n c
      else (let (c1, gw) = wrapGzip c
            in map_option (deferred (gzipWriter_Close gw)) (Next n c1)))"
| "CompressionMiddleware n c =
     (if Contains (AcceptEncoding (Request c)) ''gzip''
      then (let (c1, gw) = wrapGzip c
            in map_option (deferred (gzipWriter_Close gw)) (Next n c1))
      else Next n c)"


subsection \<open>Slices of handlers\<close>

text \<open>
  A Go slice is a pointer to a backing array, a length and a capacity; \<open>nil\<close> has no
  array. The arrays live in a store (\<open>arrays\<close> of the engine state below), because
  \<open>append\<close> writes into the backing array when the capacity suffices, and two slices
  on one array would see each other's writes. When the capacity does not suffice
  \<open>append\<close> allocates; the capacity the runtime chooses is a parameter
  (\<open>growslice\<close>, given the length needed), at least the length needed.
\<close>

record slice =
  s_arr :: "nat option"
  s_len :: nat
  s_cap :: nat

definition nil :: slice where
  "nil = \<lparr>s_arr = None, s_len = 0, s_cap = 0\<rparr>"

text \<open>
  \<open>type node struct\<close> and \<open>type methodTree struct\<close>. A compiled \<open>*regexp.Regexp\<close>
  is represented by its \<open>MatchString\<close>. The first field of \<open>methodTree\<close> is
  written \<open>meth\<close>, its Go name being a keyword of Isabelle.
\<close>

record node =
  path :: string
  regexp :: "(string \<Rightarrow> bool) option"
  node_handlers :: slice

record methodTree =
  meth :: string
  root :: node

text \<open>\<open>type RouterGroup struct\<close>; the \<open>engine\<close> pointer of every group is the one engine.\<close>

record RouterGroup =
  Handlers :: slice

text \<open>
  The two hooks \<open>engine.WM.HandlerWidget.Pre_Process\<close> and \<open>Post_Process\<close> belong to the
  widget manager, which is not part of the dispatch core: they are parameters, given
  as the operations they perform on the context.
\<close>

record HandlerWidget =
  Pre_Process :: "stmt list"
  Post_Process :: "stmt list"

text \<open>A buffered channel used as a semaphore: how many values it holds, and its capacity.\<close>

record chan =
  buffered :: nat
  capacity :: nat

text \<open>
  \<open>type Engine struct\<close>, with the stores its pointers lead into: \<open>groups\<close> holds the
  \<open>RouterGroup\<close> structs, a \<open>*RouterGroup\<close> being a position in it (position 0 is
  the group embedded in the engine), and \<open>arrays\<close> holds the backing arrays.
\<close>

record Engine =
  groups :: "RouterGroup list"
  trees :: "methodTree list"
  ConcurrenceNumSem :: chan
  WM :: HandlerWidget
  arrays :: "HandlerFunc list list"
  growslice :: "nat \<Rightarrow> nat"

text \<open>The elements of a slice, \<open>s[0:len(s)]\<close>.\<close>

definition view :: "Engine \<Rightarrow> slice \<Rightarrow> HandlerFunc list" where
  "view eng s =
     (case s_arr s of
        None \<Rightarrow> []
      | Some a \<Rightarrow> if a < length (arrays eng) then take (s_len s) (arrays eng ! a) else [])"

definition write_at :: "'a list \<Rightarrow> nat \<Rightarrow> 'a list \<Rightarrow> 'a list" where
  "write_at arr off xs = take off arr @ xs @ drop (off + length xs) arr"

text \<open>The built-in \<open>append(s, xs...)\<close>.\<close>

definition append_slice :: "slice \<Rightarrow> HandlerFunc list \<Rightarrow> Engine \<Rightarrow> slice \<times> Engine" where
  "append_slice s xs eng =
     (if xs = [] then (s, eng)
      else if s_len s + length xs \<le> s_cap s then
        (case s_arr s of
           None \<Rightarrow> (s, eng)
         | Some a \<Rightarrow>
             (s\<lparr>s_len := s_len s + length xs\<rparr>,
              eng\<lparr>arrays := (arrays eng)[a := write_at (arrays eng ! a) (s_len s) xs]\<rparr>))
      else
        (let n = s_len s + length xs;
             newcap = max n (growslice eng n);
             arr = view eng s @ xs @ replicate (newcap - n) NilFunc
         in (\<lparr>s_arr = Some (length (arrays eng)), s_len = n, s_cap = newcap\<rparr>,
             eng\<lparr>arrays := arrays eng @ [arr]\<rparr>)))"

subsection \<open>Route groups (router.go)\<close>

text \<open>
  \<open>func Default() *Engine\<close>. The widget manager and the runtime's growth policy are
  parameters.
\<close>

definition Default :: "HandlerWidget \<Rightarrow> (nat \<Rightarrow> nat) \<Rightarrow> Engine" where
  "Default wm gs =
     \<lparr>groups = [\<lparr>Handlers = nil\<rparr>], trees = [],
      ConcurrenceNumSem = \<lparr>buffered = 0, capacity = 5\<rparr>,
      WM = wm, arrays = [], growslice = gs\<rparr>"

text \<open>
  \<open>func (group *RouterGroup) Group() *RouterGroup\<close>: returns the new group's position.
  A \<open>*RouterGroup\<close> obtained from \<open>Default\<close> or \<open>Group\<close> always points to a group; for
  any other position the operations below do nothing.
\<close>

definition Group :: "nat \<Rightarrow> Engine \<Rightarrow> nat \<times> Engine" where
  "Group g eng =
     (if g < length (groups eng) then
        (let (hs, e1) = append_slice nil (view eng (Handlers (groups eng ! g))) eng
         in (length (groups e1), e1\<lparr>groups := groups e1 @ [\<lparr>Handlers = hs\<rparr>]\<rparr>))
      else (g, eng))"

text \<open>
  The expression \<open>append(append(HandlersChain(nil), group.Handlers...), handler)\<close>
  that each of the five registration methods evaluates.
\<close>

definition chain_of :: "nat \<Rightarrow> HandlerFunc \<Rightarrow> Engine \<Rightarrow> slice \<times> Engine" where
  "chain_of g handler eng =
     (let (s1, e1) = append_slice nil (view eng (Handlers (groups eng ! g))) eng
      in append_slice s1 [handler] e1)"

text \<open>
  \<open>group.engine.trees = append(group.engine.trees, methodTree{m, &node{...}})\<close>:
  the statement shared by the five registration methods, which differ in the
  method and in which of \<open>path\<close> and \<open>regexp\<close> the node literal sets (the other keeps
  its zero value).
\<close>

definition register :: "string \<Rightarrow> string \<Rightarrow> (string \<Rightarrow> bool) option \<Rightarrow> nat \<Rightarrow> HandlerFunc \<Rightarrow> Engine \<Rightarrow> Engine" where
  "register m p rx g handler eng =
     (if g < length (groups eng) then
        (let (hs, e1) = chain_of g handler eng
         in e1\<lparr>trees := trees e1 @
               [\<lparr>meth = m, root = \<lparr>path = p, regexp = rx, node_handlers = hs\<rparr>\<rparr>]\<rparr>)
      else eng)"

definition GET :: "nat \<Rightarrow> string \<Rightarrow> HandlerFunc \<Rightarrow> Engine \<Rightarrow> Engine" where
  "GET g p handler eng = register ''GET'' p None g handler eng"

definition POST :: "nat \<Rightarrow> string \<Rightarrow> HandlerFunc \<Rightarrow> Engine \<Rightarrow> Engine" where
  "POST g p handler eng = register ''POST'' p None g handler eng"

definition PUT :: "nat \<Rightarrow> string \<Rightarrow> HandlerFunc \<Rightarrow> Engine \<Rightarrow> Engine" where
  "PUT g p handler eng = register ''PUT'' p None g handler eng"

definition DELETE :: "nat \<Rightarrow> string \<Rightarrow> HandlerFunc \<Rightarrow> Engine \<Rightarrow> Engine" where
  "DELETE g p handler eng = register ''DELETE'' p None g handler eng"

definition RegexMatch :: "nat \<Rightarrow> (string \<Rightarrow> bool) \<Rightarrow> HandlerFunc \<Rightarrow> Engine \<Rightarrow> Engine" where
  "RegexMatch g rx handler eng = register ''GET'' [] (Some rx) g handler eng"

text \<open>\<open>func (group *RouterGroup) Use(middleware ...HandlerFunc)\<close>\<close>

definition Use :: "nat \<Rightarrow> HandlerFunc list \<Rightarrow> Engine \<Rightarrow> Engine" where
  "Use g middleware eng =
     (if g < length (groups eng) then
        (let (hs, e1) = append_slice (Handlers (groups eng ! g)) middleware eng
         in e1\<lparr>groups := (groups e1)[g := \<lparr>Handlers = hs\<rparr>]\<rparr>)
      else eng)"

text \<open>
  A sequence of calls on the registration surface, to speak about "all subsequent
  calls".
\<close>

datatype reg_call =
    CallGroup nat
  | CallUse nat "HandlerFunc list"
  | CallRegister string string "(string \<Rightarrow> bool) option" nat HandlerFunc

fun reg_step :: "Engine \<Rightarrow> reg_call \<Rightarrow> Engine" where
  "reg_step eng (CallGroup g) = snd (Group g eng)"
| "reg_step eng (CallUse g mw) = Use g mw eng"
| "reg_step eng (CallRegister m p rx g h) = register m p rx g h eng"

definition reg_calls :: "reg_call list \<Rightarrow> Engine \<Rightarrow> Engine" where
  "reg_calls cs eng = foldl reg_step eng cs"

fun uses_group :: "nat \<Rightarrow> reg_call \<Rightarrow> bool" where
  "uses_group g (CallUse g' mw) = (g = g')"
| "uses_group g _ = False"

subsection \<open>Dispatch\<close>

text \<open>
  The route lookup of \<open>ServeHTTP\<close>: the \<open>for ... range engine.trees\<close> loop with its
  \<open>break\<close>, started with \<open>handlers\<close> at \<open>nil\<close>.
\<close>

fun find_handlers :: "methodTree list \<Rightarrow> string \<Rightarrow> string \<Rightarrow> slice \<Rightarrow> slice" where
  "find_handlers [] m p hs = hs"
| "find_handlers (v # vs) m p hs =
     (if path (root v) = p \<or> (case regexp (root v) of None \<Rightarrow> False | Some rx \<Rightarrow> rx p)
      then (if meth v = m then node_handlers (root v) else find_handlers vs m p hs)
      else find_handlers vs m p hs)"

text \<open>
  \<open>func safelyHandle(engine *Engine, c *Context)\<close>, in three parts: the statements
  after the two \<open>defer\<close>s, the inner deferred function and the outer one.
  The logger calls have no effect on the state kept here.
\<close>

definition handle_body :: "nat \<Rightarrow> Engine \<Rightarrow> Context \<Rightarrow> outcome option" where
  "handle_body n engine c =
     (case exec n (Pre_Process (WM engine)) (c\<lparr>trace := trace c @ [PreProcessed]\<rparr>) of
        None \<Rightarrow> None
      | Some (Panicked m c1) \<Rightarrow> Some (Panicked m c1)
      | Some (Returned c1) \<Rightarrow>
          if handlers c1 = []
          then Some (Returned (Writer_WriteHeader 404 (c1\<lparr>Err := Some ''page not found''\<rparr>)))
          else (case ParseForm (Request c1) of
                  Some err \<Rightarrow> Some (Panicked err c1)
                | None \<Rightarrow> Next n c1))"

text \<open>
  The inner deferred function: \<open>recover()\<close> stops a panic of the body and its
  description is stored in \<open>c.Err\<close>; then \<open>Post_Process\<close> is called in either case.
\<close>

definition recovered :: "outcome \<Rightarrow> Context" where
  "recovered r = (case r of Returned c \<Rightarrow> c | Panicked m c \<Rightarrow> c\<lparr>Err := Some m\<rparr>)"

definition inner_deferred :: "nat \<Rightarrow> Engine \<Rightarrow> outcome \<Rightarrow> outcome option" where
  "inner_deferred n engine r =
     (let c = recovered r
      in exec n (Post_Process (WM engine)) (c\<lparr>trace := trace c @ [PostProcessed (Err c)]\<rparr>))"

text \<open>
  The outer deferred function: it recovers a panic of the inner deferred function
  and writes its description to \<open>c.Writer\<close>.
\<close>

definition outer_deferred :: "outcome \<Rightarrow> outcome" where
  "outer_deferred r =
     (case r of Returned c \<Rightarrow> Returned c
              | Panicked m c \<Rightarrow> Returned (Writer_Write (Writer c) (Raw m) c))"

definition safelyHandle :: "nat \<Rightarrow> Engine \<Rightarrow> Context \<Rightarrow> outcome option" where
  "safelyHandle n engine c =
     (case handle_body n engine c of
        None \<Rightarrow> None
      | Some r \<Rightarrow> map_option outer_deferred (inner_deferred n engine r))"

text \<open>
  \<open>func (engine *Engine) ServeHTTP(w http.ResponseWriter, req *http.Request)\<close>.
  Which case of the \<open>select\<close> statement runs is decided by the timer and by the other
  requests; it is an input. The send case can only run when the channel has room.
  The template helper functions placed in \<open>FuncMap\<close> are not used by the dispatch.
\<close>

datatype select_case = SendPermit | TimerFired

definition send :: "chan \<Rightarrow> chan" where
  "send ch = ch\<lparr>buffered := buffered ch + 1\<rparr>"

definition receive :: "chan \<Rightarrow> chan" where
  "receive ch = ch\<lparr>buffered := buffered ch - 1\<rparr>"

text \<open>
  The context that \<open>ServeHTTP\<close> builds for a request: \<open>&Context{...}\<close> followed by
  \<open>context.Writer = w\<close> and \<open>context.index = -1\<close>.
\<close>

definition new_context :: "Request \<Rightarrow> response \<Rightarrow> Context" where
  "new_context req w =
     \<lparr>Request = req, Writer = W, index = - 1, handlers = [], Err = None,
      resp = w, gzs = [], trace = []\<rparr>"

definition ServeHTTP :: "nat \<Rightarrow> select_case \<Rightarrow> Engine \<Rightarrow> response \<Rightarrow> Request \<Rightarrow> (Engine \<times> outcome) option" where
  "ServeHTTP n sel engine w req =
     (let context = new_context req w
      in if sel = SendPermit \<and> buffered (ConcurrenceNumSem engine) < capacity (ConcurrenceNumSem engine)
         then
           (let e1 = engine\<lparr>ConcurrenceNumSem := send (ConcurrenceNumSem engine)\<rparr>;
                hs = find_handlers (trees e1) (Method req) (Path req) nil
            in case safelyHandle n e1 (context\<lparr>handlers := view e1 hs\<rparr>) of
                 None \<Rightarrow> None
               | Some (Panicked m c) \<Rightarrow> Some (e1, Panicked m c)
               | Some (Returned c) \<Rightarrow>
                   Some (e1\<lparr>ConcurrenceNumSem := receive (ConcurrenceNumSem e1)\<rparr>, Returned c))
         else Some (engine, Returned (Writer_Write (Writer context) (Raw ''server overload'') context)))"

section \<open>Notions used in the statements and proofs\<close>

subsection \<open>Reading the log\<close>

text \<open>
  \<open>invoked t\<close>: the chain positions whose handlers the log \<open>t\<close> shows as invoked, in
  the order of invocation. \<open>hook_events t\<close>: the entries of the two hooks in \<open>t\<close>.
  \<open>no_call_after_abort t\<close>: no invocation of a handler follows a call of \<open>Abort\<close>
  in \<open>t\<close>.
\<close>

fun invoked :: "event list \<Rightarrow> nat list" where
  "invoked [] = []"
| "invoked (Invoked k # es) = k # invoked es"
| "invoked (e # es) = invoked es"

fun hook_events :: "event list \<Rightarrow> event list" where
  "hook_events [] = []"
| "hook_events (Invoked k # es) = hook_events es"
| "hook_events (Aborted # es) = hook_events es"
| "hook_events (e # es) = e # hook_events es"

fun no_call_after_abort :: "event list \<Rightarrow> bool" where
  "no_call_after_abort [] = True"
| "no_call_after_abort (Aborted # es) = (invoked es = [] \<and> no_call_after_abort es)"
| "no_call_after_abort (e # es) = no_call_after_abort es"

subsection \<open>Kinds of handlers\<close>

text \<open>
  \<open>calm\<close>: an operation other than \<open>Abort\<close> and \<open>panic\<close>; a calm handler is application
  code made of calm operations, or one of the two middlewares. \<open>plain\<close>: an operation
  that only writes or sets the error, so a handler of plain operations returns
  without calling \<open>Next\<close> or \<open>Abort\<close> and without a panic.
\<close>

fun calm :: "stmt \<Rightarrow> bool" where
  "calm CallAbort = False"
| "calm (Panic m) = False"
| "calm s = True"

fun calm_handler :: "HandlerFunc \<Rightarrow> bool" where
  "calm_handler (Func b) = list_all calm b"
| "calm_handler NilFunc = False"
| "calm_handler h = True"

fun plain :: "stmt \<Rightarrow> bool" where
  "plain (Write s) = True"
| "plain (SetErr s) = True"
| "plain s = False"

subsection \<open>Measure and frame of a run\<close>

text \<open>
  \<open>remaining c\<close> counts the chain positions from the cursor on that can still be
  reached. \<open>frame_ok\<close>: a result has the chain and the request of the context it
  started from, and a log that extends its log. \<open>pot_ok\<close>: a normal return does not
  increase \<open>remaining\<close>; for the loop, in addition, it did not start at a negative
  cursor.
\<close>

definition remaining :: "Context \<Rightarrow> nat" where
  "remaining c =
     (if - 1 \<le> index c \<and> index c < int (length (handlers c))
      then nat (int (length (handlers c)) - index c) else 0)"

definition frame_ok :: "Context \<Rightarrow> outcome \<Rightarrow> bool" where
  "frame_ok c r = (handlers (ctx_of r) = handlers c \<and> Request (ctx_of r) = Request c \<and>
      prefix (trace c) (trace (ctx_of r)))"

definition pot_ok :: "Context \<Rightarrow> outcome \<Rightarrow> bool" where
  "pot_ok c r = (int (length (handlers c)) \<le> sentinel \<longrightarrow>
      (\<forall>c'. r = Returned c' \<longrightarrow> remaining c' \<le> remaining c))"

definition pot_ok_loop :: "Context \<Rightarrow> outcome \<Rightarrow> bool" where
  "pot_ok_loop c r = (int (length (handlers c)) \<le> sentinel \<longrightarrow>
      (\<forall>c'. r = Returned c' \<longrightarrow> 0 \<le> index c \<and> remaining c' \<le> remaining c))"

subsection \<open>The log and the cursor\<close>

text \<open>
  \<open>good hs c\<close>, for a context inside a handler or a hook: as long as \<open>Abort\<close> is not in
  the log, the handlers invoked are those at the positions up to the cursor, each
  once and in order. \<open>good_loop\<close> is the same at the head of the loop of \<open>Next\<close>, where
  the handler at the cursor is still to be invoked. \<open>keeps_good\<close>, \<open>ends_good\<close> and
  \<open>ends_good_loop\<close> say that a normal return keeps this, for \<open>Next\<close> and its loop with
  the cursor at or beyond the end of the chain.
\<close>

definition good :: "HandlersChain \<Rightarrow> Context \<Rightarrow> bool" where
  "good hs c = (handlers c = hs \<and> - 1 \<le> index c \<and>
     (Aborted \<notin> set (trace c) \<longrightarrow>
        invoked (trace c) = [0 ..< min (length hs) (nat (index c + 1))]))"

definition good_loop :: "HandlersChain \<Rightarrow> Context \<Rightarrow> bool" where
  "good_loop hs c = (handlers c = hs \<and> 0 \<le> index c \<and>
     (Aborted \<notin> set (trace c) \<longrightarrow>
        invoked (trace c) = [0 ..< min (length hs) (nat (index c))]))"

definition keeps_good :: "HandlersChain \<Rightarrow> Context \<Rightarrow> outcome \<Rightarrow> bool" where
  "keeps_good hs c r = (good hs c \<longrightarrow> (\<forall>c'. r = Returned c' \<longrightarrow> good hs c'))"

definition ends_good :: "HandlersChain \<Rightarrow> Context \<Rightarrow> outcome \<Rightarrow> bool" where
  "ends_good hs c r = (good hs c \<longrightarrow>
     (\<forall>c'. r = Returned c' \<longrightarrow> good hs c' \<and> int (length hs) \<le> index c'))"

definition ends_good_loop :: "HandlersChain \<Rightarrow> Context \<Rightarrow> outcome \<Rightarrow> bool" where
  "ends_good_loop hs c r = ((index c < 0 \<longrightarrow> (\<forall>c'. r \<noteq> Returned c')) \<and>
     (good_loop hs c \<longrightarrow> (\<forall>c'. r = Returned c' \<longrightarrow> good hs c' \<and> int (length hs) \<le> index c')))"

text \<open>
  The same for a log without \<open>Abort\<close>. \<open>steady_loop\<close> also covers the cursor that has
  wrapped to a negative value, which happens only after the whole chain has run;
  \<open>complete\<close> is the log of a chain that has run as a whole. A result is steady when
  it returns in a steady context (for \<open>Next\<close> and its loop: with the cursor at or
  beyond the end), or panics with a complete log.
\<close>

definition steady :: "HandlersChain \<Rightarrow> Context \<Rightarrow> bool" where
  "steady hs c = (handlers c = hs \<and> - 1 \<le> index c \<and> Aborted \<notin> set (trace c) \<and>
     invoked (trace c) = [0 ..< min (length hs) (nat (index c + 1))])"

definition steady_loop :: "HandlersChain \<Rightarrow> Context \<Rightarrow> bool" where
  "steady_loop hs c = (handlers c = hs \<and> Aborted \<notin> set (trace c) \<and>
     invoked (trace c) =
       (if index c < 0 then [0 ..< length hs] else [0 ..< min (length hs) (nat (index c))]))"

definition complete :: "HandlersChain \<Rightarrow> Context \<Rightarrow> bool" where
  "complete hs c = (Aborted \<notin> set (trace c) \<and> invoked (trace c) = [0 ..< length hs])"

fun steady_result :: "HandlersChain \<Rightarrow> bool \<Rightarrow> outcome \<Rightarrow> bool" where
  "steady_result hs at_end (Returned c') =
     (steady hs c' \<and> (at_end \<longrightarrow> int (length hs) \<le> index c'))"
| "steady_result hs at_end (Panicked m c') = complete hs c'"

text \<open>
  \<open>halted b hs c\<close>: no handler was invoked after \<open>Abort\<close>, and if \<open>Abort\<close> is in the log
  the cursor is at or beyond the end of the chain or below \<open>b\<close>, a negative bound. A
  panic may leave the cursor one step further, hence the bound \<open>b + 1\<close> for a
  result that panicked.
\<close>

definition halted :: "int \<Rightarrow> HandlersChain \<Rightarrow> Context \<Rightarrow> bool" where
  "halted b hs c = (handlers c = hs \<and> no_call_after_abort (trace c) \<and>
     (Aborted \<in> set (trace c) \<longrightarrow> int (length hs) \<le> index c \<or> index c < b))"

fun halted_result :: "int \<Rightarrow> HandlersChain \<Rightarrow> outcome \<Rightarrow> bool" where
  "halted_result b hs (Returned c') = halted b hs c'"
| "halted_result b hs (Panicked m c') = halted (b + 1) hs c'"

subsection \<open>The store of gzip writers\<close>

text \<open>
  \<open>gz_le c c'\<close>: every wrapper of \<open>c\<close> is still there in \<open>c'\<close>, wraps the same writer and
  is closed if it was; the writer of \<open>c'\<close> is that of \<open>c\<close> or a wrapper allocated since.
\<close>

definition gz_le :: "Context \<Rightarrow> Context \<Rightarrow> bool" where
  "gz_le c c' = (length (gzs c) \<le> length (gzs c') \<and>
     (\<forall>a < length (gzs c). ResponseWriter (gzs c' ! a) = ResponseWriter (gzs c ! a) \<and>
         (gz_closed (gzs c ! a) \<longrightarrow> gz_closed (gzs c' ! a))) \<and>
     (Writer c' = Writer c \<or> (\<exists>a. Writer c' = GW a \<and> length (gzs c) \<le> a)))"

subsection \<open>Route entries\<close>

text \<open>The test that the lookup loop applies to an entry.\<close>

definition entry_matches :: "methodTree \<Rightarrow> string \<Rightarrow> string \<Rightarrow> bool" where
  "entry_matches v m p =
     ((path (root v) = p \<or> (case regexp (root v) of None \<Rightarrow> False | Some rx \<Rightarrow> rx p)) \<and> meth v = m)"

subsection \<open>Slices that do not share an array\<close>

text \<open>
  \<open>slice_ok\<close>: the slice lies within its backing array. \<open>apart\<close>: two slices have
  different backing arrays (or one has none). \<open>separated\<close>: this holds among the
  prefixes of all groups and the chains of all registered routes. \<open>group_view\<close> and
  \<open>chain_view\<close> are the elements of a group's prefix and of a registered chain.
\<close>

definition slice_ok :: "Engine \<Rightarrow> slice \<Rightarrow> bool" where
  "slice_ok eng s =
     (s_len s \<le> s_cap s \<and>
      (case s_arr s of
         None \<Rightarrow> s_cap s = 0
       | Some a \<Rightarrow> a < length (arrays eng) \<and> s_cap s \<le> length (arrays eng ! a)))"

definition apart :: "slice \<Rightarrow> slice \<Rightarrow> bool" where
  "apart s t = (s_arr s = None \<or> s_arr t = None \<or> s_arr s \<noteq> s_arr t)"

definition separated :: "Engine \<Rightarrow> bool" where
  "separated eng =
     ((\<forall>g < length (groups eng). slice_ok eng (Handlers (groups eng ! g))) \<and>
      (\<forall>i < length (trees eng). slice_ok eng (node_handlers (root (trees eng ! i)))) \<and>
      (\<forall>g < length (groups eng). \<forall>g' < length (groups eng). g \<noteq> g' \<longrightarrow>
          apart (Handlers (groups eng ! g)) (Handlers (groups eng ! g'))) \<and>
      (\<forall>i < length (trees eng). \<forall>i' < length (trees eng). i \<noteq> i' \<longrightarrow>
          apart (node_handlers (root (trees eng ! i))) (node_handlers (root (trees eng ! i')))) \<and>
      (\<forall>g < length (groups eng). \<forall>i < length (trees eng).
          apart (Handlers (groups eng ! g)) (node_handlers (root (trees eng ! i)))))"

definition group_view :: "Engine \<Rightarrow> nat \<Rightarrow> HandlerFunc list" where
  "group_view eng g = view eng (Handlers (groups eng ! g))"

definition chain_view :: "Engine \<Rightarrow> nat \<Rightarrow> HandlerFunc list" where
  "chain_view eng i = view eng (node_handlers (root (trees eng ! i)))"

subsection \<open>Example values\<close>

text \<open>
  A request that accepts gzip, an empty response, a new context with a given chain;
  engines with hooks that do nothing (one whose allocations have no spare room, one
  whose allocations leave room for two more elements) and an engine whose
  post-dispatch hook panics; and the compiled pattern \<open>^/a$\<close>.
\<close>

definition example_request :: Request where
  "example_request = \<lparr>Method = ''GET'', Path = ''/a'', AcceptEncoding = ''gzip, deflate'', ParseForm = None\<rparr>"

definition empty_response :: response where
  "empty_response = \<lparr>header = Map.empty, status = None, body = []\<rparr>"

definition chain_context :: "HandlersChain \<Rightarrow> Context" where
  "chain_context hs = (new_context example_request empty_response)\<lparr>handlers := hs\<rparr>"

definition quiet_engine :: Engine where
  "quiet_engine = Default \<lparr>Pre_Process = [], Post_Process = []\<rparr> (\<lambda>n. n)"

definition roomy_engine :: Engine where
  "roomy_engine = Default \<lparr>Pre_Process = [], Post_Process = []\<rparr> (\<lambda>n. n + 2)"

definition failing_hook_engine :: Engine where
  "failing_hook_engine = Default \<lparr>Pre_Process = [], Post_Process = [Panic ''hook failed'']\<rparr> (\<lambda>n. n)"

definition slash_a :: "string \<Rightarrow> bool" where
  "slash_a p = (p = ''/a'')"

section \<open>Properties of the chain runner\<close>

subsection \<open>What the writer operations leave alone\<close>

lemma Writer_Write_frame [simp]:
  "index (Writer_Write r b c) = index c"
  "handlers (Writer_Write r b c) = handlers c"
  "trace (Writer_Write r b c) = trace c"
  "Request (Writer_Write r b c) = Request c"
  "Err (Writer_Write r b c) = Err c"
  "Writer (Writer_Write r b c) = Writer c"
  by (auto simp: Writer_Write_def gzipWriter_Write_def Let_def split: writer_ref.splits)

lemma gzipWriter_Close_frame [simp]:
  "index (gzipWriter_Close a c) = index c"
  "handlers (gzipWriter_Close a c) = handlers c"
  "trace (gzipWriter_Close a c) = trace c"
  "Request (gzipWriter_Close a c) = Request c"
  "Err (gzipWriter_Close a c) = Err c"
  "Writer (gzipWriter_Close a c) = Writer c"
  by (auto simp: gzipWriter_Close_def Let_def)

lemma wrapGzip_frame [simp]:
  "index (fst (wrapGzip c)) = index c"
  "handlers (fst (wrapGzip c)) = handlers c"
  "trace (fst (wrapGzip c)) = trace c"
  "Request (fst (wrapGzip c)) = Request c"
  "Err (fst (wrapGzip c)) = Err c"
  by (auto simp: wrapGzip_def Let_def)

lemma Abort_frame [simp]:
  "index (Abort c) = sentinel"
  "handlers (Abort c) = handlers c"
  "trace (Abort c) = trace c @ [Aborted]"
  "Request (Abort c) = Request c"
  by (auto simp: Abort_def)

lemma Writer_WriteHeader_frame [simp]:
  "index (Writer_WriteHeader s c) = index c"
  "handlers (Writer_WriteHeader s c) = handlers c"
  "trace (Writer_WriteHeader s c) = trace c"
  "Request (Writer_WriteHeader s c) = Request c"
  "Err (Writer_WriteHeader s c) = Err c"
  "Writer (Writer_WriteHeader s c) = Writer c"
  "gzs (Writer_WriteHeader s c) = gzs c"
  by (simp_all add: Writer_WriteHeader_def)

lemma recovered_frame [simp]:
  "handlers (recovered r) = handlers (ctx_of r)"
  "trace (recovered r) = trace (ctx_of r)"
  "index (recovered r) = index (ctx_of r)"
  by (cases r; simp add: recovered_def)+

lemma ctx_of_deferred [simp]: "ctx_of (deferred f r) = f (ctx_of r)"
  by (cases r) auto

lemma deferred_eq [simp]:
  "deferred f r = Returned c' \<longleftrightarrow> (\<exists>c1. r = Returned c1 \<and> c' = f c1)"
  "deferred f r = Panicked m c' \<longleftrightarrow> (\<exists>c1. r = Panicked m c1 \<and> c' = f c1)"
  by (cases r; auto)+

subsection \<open>Rule induction over a run\<close>

text \<open>
  Every result of the runner is built by the steps below, so a relation between the
  starting context and the result that is closed under them holds of every run.
\<close>

lemma runner_induct:
  assumes N: "\<And>c r. PL (c\<lparr>index := inc64 (index c)\<rparr>) r \<Longrightarrow> PN c r"
    and L_neg: "\<And>c. index c < int (length (handlers c)) \<Longrightarrow> index c < 0 \<Longrightarrow>
            PL c (Panicked ''runtime error: index out of range'' c)"
    and L_exit: "\<And>c. \<not> index c < int (length (handlers c)) \<Longrightarrow> PL c (Returned c)"
    and L_panic: "\<And>c m c'. index c < int (length (handlers c)) \<Longrightarrow> 0 \<le> index c \<Longrightarrow>
            PC (handlers c ! nat (index c)) (c\<lparr>trace := trace c @ [Invoked (nat (index c))]\<rparr>) (Panicked m c') \<Longrightarrow>
            PL c (Panicked m c')"
    and L_step: "\<And>c c' r. index c < int (length (handlers c)) \<Longrightarrow> 0 \<le> index c \<Longrightarrow>
            PC (handlers c ! nat (index c)) (c\<lparr>trace := trace c @ [Invoked (nat (index c))]\<rparr>) (Returned c') \<Longrightarrow>
            PL (c'\<lparr>index := inc64 (index c')\<rparr>) r \<Longrightarrow> PL c r"
    and C_func: "\<And>b c r. PE b c r \<Longrightarrow> PC (Func b) c r"
    and C_plain: "\<And>h c r. h = GzipMiddlewareFunc \<or> h = CompressionMiddlewareFunc \<Longrightarrow>
            \<not> Contains (AcceptEncoding (Request c)) ''gzip'' \<Longrightarrow> PN c r \<Longrightarrow> PC h c r"
    and C_gzip: "\<And>h c r. h = GzipMiddlewareFunc \<or> h = CompressionMiddlewareFunc \<Longrightarrow>
            Contains (AcceptEncoding (Request c)) ''gzip'' \<Longrightarrow> PN (fst (wrapGzip c)) r \<Longrightarrow>
            PC h c (deferred (gzipWriter_Close (snd (wrapGzip c))) r)"
    and C_nil: "\<And>c. PC NilFunc c
            (Panicked ''runtime error: invalid memory address or nil pointer dereference'' c)"
    and E_nil: "\<And>c. PE [] c (Returned c)"
    and E_next_panic: "\<And>b c m c'. PN c (Panicked m c') \<Longrightarrow> PE (CallNext # b) c (Panicked m c')"
    and E_next: "\<And>b c c' r. PN c (Returned c') \<Longrightarrow> PE b c' r \<Longrightarrow> PE (CallNext # b) c r"
    and E_abort: "\<And>b c r. PE b (Abort c) r \<Longrightarrow> PE (CallAbort # b) c r"
    and E_panic: "\<And>b c m. PE (Panic m # b) c (Panicked m c)"
    and E_write: "\<And>b c s r. PE b (Writer_Write (Writer c) (Raw s) c) r \<Longrightarrow> PE (Write s # b) c r"
    and E_seterr: "\<And>b c s r. PE b (c\<lparr>Err := Some s\<rparr>) r \<Longrightarrow> PE (SetErr s # b) c r"
  shows "Next n c = Some r \<Longrightarrow> PN c r"
    and "Next_loop n c = Some r \<Longrightarrow> PL c r"
    and "call n h c = Some r \<Longrightarrow> PC h c r"
    and "exec n b c = Some r \<Longrightarrow> PE b c r"
    and "GzipMiddleware n c = Some r \<Longrightarrow> PC GzipMiddlewareFunc c r"
    and "CompressionMiddleware n c = Some r \<Longrightarrow> PC CompressionMiddlewareFunc c r"
proof (induction n c and n c and n h c and n b c and n c and n c arbitrary: r and r and r and r and r and r
    rule: Next_Next_loop_call_exec_GzipMiddleware_CompressionMiddleware.induct)
  case (1 c)
  then show ?case by simp
next
  case (2 n c)
  then show ?case by (simp add: N)
next
  case (3 c)
  then show ?case by simp
next
  case (4 n c)
  show ?case
  proof (cases "index c < int (length (handlers c))")
    case False
    with 4 show ?thesis by (auto intro: L_exit)
  next
    case lt: True
    show ?thesis
    proof (cases "index c < 0")
      case True
      with lt 4 show ?thesis by (auto intro: L_neg)
    next
      case False
      let ?c = "c\<lparr>trace := trace c @ [Invoked (nat (index c))]\<rparr>"
      from lt False "4.prems" obtain r1 where r1: "call n (handlers c ! nat (index c)) ?c = Some r1"
        by (auto split: option.splits)
      from "4.IH"(1)[OF lt False r1] have pc: "PC (handlers c ! nat (index c)) ?c r1" .
      show ?thesis
      proof (cases r1)
        case (Panicked m c')
        with lt False r1 "4.prems" pc show ?thesis by (auto intro: L_panic)
      next
        case (Returned c')
        with lt False r1 "4.prems" have "Next_loop n (c'\<lparr>index := inc64 (index c')\<rparr>) = Some r" by simp
        from "4.IH"(2)[OF lt False r1[unfolded Returned] refl this] pc Returned lt False
        show ?thesis by (auto intro: L_step)
      qed
    qed
  qed
next
  case (5 n b c)
  then show ?case by (simp add: C_func)
next
  case (6 n c)
  then show ?case by simp
next
  case (7 n c)
  then show ?case by simp
next
  case (8 n c)
  then show ?case by (auto intro: C_nil)
next
  case (9 n c)
  then show ?case by (auto intro: E_nil)
next
  case (10 n b c)
  from "10.prems" obtain r1 where r1: "Next n c = Some r1" by (auto split: option.splits)
  from "10.IH"(1)[OF r1] have pn: "PN c r1" .
  show ?case
  proof (cases r1)
    case (Panicked m c')
    with r1 "10.prems" pn show ?thesis by (auto intro: E_next_panic)
  next
    case (Returned c')
    with r1 "10.prems" have "exec n b c' = Some r" by simp
    from "10.IH"(2)[OF r1[unfolded Returned] refl this] pn Returned show ?thesis by (auto intro: E_next)
  qed
next
  case (11 n b c)
  then show ?case by (simp add: E_abort)
next
  case (12 n m b c)
  then show ?case by (auto intro: E_panic)
next
  case (13 n s b c)
  then show ?case by (simp add: E_write)
next
  case (14 n s b c)
  then show ?case by (simp add: E_seterr)
next
  case (15 n c)
  show ?case
  proof (cases "Contains (AcceptEncoding (Request c)) ''gzip''")
    case False
    with 15 show ?thesis by (auto intro: C_plain)
  next
    case True
    with "15.prems" obtain r1 where r1: "Next n (fst (wrapGzip c)) = Some r1"
      and r: "r = deferred (gzipWriter_Close (snd (wrapGzip c))) r1"
      by (auto split: prod.splits)
    from True have nn: "\<not> \<not> Contains (AcceptEncoding (Request c)) ''gzip''" by simp
    have "PN (fst (wrapGzip c)) r1"
      using "15.IH"(2)[OF nn refl prod.collapse r1] .
    with True r show ?thesis by (auto intro: C_gzip)
  qed
next
  case (16 n c)
  show ?case
  proof (cases "Contains (AcceptEncoding (Request c)) ''gzip''")
    case False
    with 16 show ?thesis by (auto intro: C_plain)
  next
    case True
    with "16.prems" obtain r1 where r1: "Next n (fst (wrapGzip c)) = Some r1"
      and r: "r = deferred (gzipWriter_Close (snd (wrapGzip c))) r1"
      by (auto split: prod.splits)
    have "PN (fst (wrapGzip c)) r1"
      using "16.IH"(1)[OF True refl prod.collapse r1] .
    with True r show ?thesis by (auto intro: C_gzip)
  qed
qed

text \<open>The same principle with one conclusion for the four functions.\<close>

lemma runner_rule:
  assumes "\<And>c r. PL (c\<lparr>index := inc64 (index c)\<rparr>) r \<Longrightarrow> PN c r"
    and "\<And>c. index c < int (length (handlers c)) \<Longrightarrow> index c < 0 \<Longrightarrow>
            PL c (Panicked ''runtime error: index out of range'' c)"
    and "\<And>c. \<not> index c < int (length (handlers c)) \<Longrightarrow> PL c (Returned c)"
    and "\<And>c m c'. index c < int (length (handlers c)) \<Longrightarrow> 0 \<le> index c \<Longrightarrow>
            PC (handlers c ! nat (index c)) (c\<lparr>trace := trace c @ [Invoked (nat (index c))]\<rparr>) (Panicked m c') \<Longrightarrow>
            PL c (Panicked m c')"
    and "\<And>c c' r. index c < int (length (handlers c)) \<Longrightarrow> 0 \<le> index c \<Longrightarrow>
            PC (handlers c ! nat (index c)) (c\<lparr>trace := trace c @ [Invoked (nat (index c))]\<rparr>) (Returned c') \<Longrightarrow>
            PL (c'\<lparr>index := inc64 (index c')\<rparr>) r \<Longrightarrow> PL c r"
    and "\<And>b c r. PE b c r \<Longrightarrow> PC (Func b) c r"
    and "\<And>h c r. h = GzipMiddlewareFunc \<or> h = CompressionMiddlewareFunc \<Longrightarrow>
            \<not> Contains (AcceptEncoding (Request c)) ''gzip'' \<Longrightarrow> PN c r \<Longrightarrow> PC h c r"
    and "\<And>h c r. h = GzipMiddlewareFunc \<or> h = CompressionMiddlewareFunc \<Longrightarrow>
            Contains (AcceptEncoding (Request c)) ''gzip'' \<Longrightarrow> PN (fst (wrapGzip c)) r \<Longrightarrow>
            PC h c (deferred (gzipWriter_Close (snd (wrapGzip c))) r)"
    and "\<And>c. PC NilFunc c
            (Panicked ''runtime error: invalid memory address or nil pointer dereference'' c)"
    and "\<And>c. PE [] c (Returned c)"
    and "\<And>b c m c'. PN c (Panicked m c') \<Longrightarrow> PE (CallNext # b) c (Panicked m c')"
    and "\<And>b c c' r. PN c (Returned c') \<Longrightarrow> PE b c' r \<Longrightarrow> PE (CallNext # b) c r"
    and "\<And>b c r. PE b (Abort c) r \<Longrightarrow> PE (CallAbort # b) c r"
    and "\<And>b c m. PE (Panic m # b) c (Panicked m c)"
    and "\<And>b c s r. PE b (Writer_Write (Writer c) (Raw s) c) r \<Longrightarrow> PE (Write s # b) c r"
    and "\<And>b c s r. PE b (c\<lparr>Err := Some s\<rparr>) r \<Longrightarrow> PE (SetErr s # b) c r"
  shows "(Next n c = Some r \<longrightarrow> PN c r) \<and> (Next_loop n c = Some r \<longrightarrow> PL c r) \<and>
         (call n h c = Some r \<longrightarrow> PC h c r) \<and> (exec n b c = Some r \<longrightarrow> PE b c r)"
proof -
  have "Next n c = Some r \<Longrightarrow> PN c r"
    by (rule runner_induct(1)[where PN = PN and PL = PL and PC = PC and PE = PE]) (blast intro: assms)+
  moreover have "Next_loop n c = Some r \<Longrightarrow> PL c r"
    by (rule runner_induct(2)[where PN = PN and PL = PL and PC = PC and PE = PE]) (blast intro: assms)+
  moreover have "call n h c = Some r \<Longrightarrow> PC h c r"
    by (rule runner_induct(3)[where PN = PN and PL = PL and PC = PC and PE = PE]) (blast intro: assms)+
  moreover have "exec n b c = Some r \<Longrightarrow> PE b c r"
    by (rule runner_induct(4)[where PN = PN and PL = PL and PC = PC and PE = PE]) (blast intro: assms)+
  ultimately show ?thesis by blast
qed

subsection \<open>Chain and request are fixed, the log grows\<close>

lemma runner_frame:
  "(Next n c = Some r \<longrightarrow> frame_ok c r) \<and> (Next_loop n c = Some r \<longrightarrow> frame_ok c r) \<and>
   (call n h c = Some r \<longrightarrow> frame_ok c r) \<and> (exec n b c = Some r \<longrightarrow> frame_ok c r)"
  by (rule runner_rule[where PN = frame_ok and PL = frame_ok and PC = "\<lambda>h. frame_ok" and PE = "\<lambda>b. frame_ok"])
    (auto simp: frame_ok_def dest: append_prefixD)

lemma exec_handlers: "exec n b c = Some r \<Longrightarrow> handlers (ctx_of r) = handlers c"
  using runner_frame[of n c r _ b] by (simp add: frame_ok_def)

lemma Next_handlers: "Next n c = Some r \<Longrightarrow> handlers (ctx_of r) = handlers c"
  using runner_frame[of n c r] by (simp add: frame_ok_def)

lemma hook_events_append [simp]: "hook_events (xs @ ys) = hook_events xs @ hook_events ys"
  by (induction xs rule: hook_events.induct) auto

lemma only_calls:
  "hook_events t = [] \<Longrightarrow> Aborted \<notin> set t \<Longrightarrow> t = map Invoked (invoked t)"
  by (induction t rule: hook_events.induct) auto

lemma runner_hooks:
  "(Next n c = Some r \<longrightarrow> hook_events (trace (ctx_of r)) = hook_events (trace c)) \<and>
   (Next_loop n c = Some r \<longrightarrow> hook_events (trace (ctx_of r)) = hook_events (trace c)) \<and>
   (call n h c = Some r \<longrightarrow> hook_events (trace (ctx_of r)) = hook_events (trace c)) \<and>
   (exec n b c = Some r \<longrightarrow> hook_events (trace (ctx_of r)) = hook_events (trace c))"
  by (rule runner_rule[where PN = "\<lambda>c r. hook_events (trace (ctx_of r)) = hook_events (trace c)"
        and PL = "\<lambda>c r. hook_events (trace (ctx_of r)) = hook_events (trace c)"
        and PC = "\<lambda>h c r. hook_events (trace (ctx_of r)) = hook_events (trace c)"
        and PE = "\<lambda>b c r. hook_events (trace (ctx_of r)) = hook_events (trace c)"]) simp_all

lemma exec_new_events:
  assumes "exec n b c = Some r"
  shows "\<exists>rest. trace (ctx_of r) = trace c @ rest \<and> hook_events rest = []"
proof -
  from runner_frame[of n c r _ b] assms obtain rest where rest: "trace (ctx_of r) = trace c @ rest"
    by (auto simp: frame_ok_def prefix_def)
  from runner_hooks[of n c r _ b] assms have "hook_events (trace (ctx_of r)) = hook_events (trace c)"
    by simp
  with rest show ?thesis by simp
qed

lemma exec_plain:
  "list_all plain b \<Longrightarrow>
     \<exists>c1. exec n b c = Some (Returned c1) \<and> index c1 = index c \<and> handlers c1 = handlers c \<and>
          trace c1 = trace c \<and> Request c1 = Request c \<and> Writer c1 = Writer c"
proof (induction b arbitrary: c)
  case Nil
  then show ?case by simp
next
  case (Cons s b)
  show ?case
  proof (cases s)
    case (Write x)
    with Cons.prems Cons.IH[of "Writer_Write (Writer c) (Raw x) c"] show ?thesis by auto
  next
    case (SetErr x)
    with Cons.prems Cons.IH[of "c\<lparr>Err := Some x\<rparr>"] show ?thesis by auto
  qed (use Cons.prems in auto)
qed

subsection \<open>Every run returns\<close>

text \<open>
  For a chain no longer than the sentinel the positions still reachable never
  increase, and a call depth of twice their number (and at least 2) suffices.
\<close>

lemma Next_loop_negative:
  "index c < 0 \<Longrightarrow> Next_loop (Suc n) c = Some (Panicked ''runtime error: index out of range'' c)"
  by simp

lemma remaining_simps [simp]:
  "remaining (Writer_Write w b c) = remaining c"
  "remaining (gzipWriter_Close a c) = remaining c"
  "remaining (fst (wrapGzip c)) = remaining c"
  "remaining (c\<lparr>trace := t\<rparr>) = remaining c"
  "remaining (c\<lparr>Err := e\<rparr>) = remaining c"
  by (simp_all add: remaining_def)

lemma remaining_Abort:
  "int (length (handlers c)) \<le> sentinel \<Longrightarrow> remaining (Abort c) = 0"
  by (simp add: remaining_def)

lemma remaining_inc:
  assumes "int (length (handlers c)) \<le> sentinel"
  shows "inc64 (index c) < 0 \<or> remaining (c\<lparr>index := inc64 (index c)\<rparr>) \<le> remaining c - 1"
  using assms by (auto simp: remaining_def inc64_def sentinel_def)

lemma remaining_le: "remaining c \<le> length (handlers c) + 1"
  by (auto simp: remaining_def)

lemma runner_pot:
  "(Next n c = Some r \<longrightarrow> frame_ok c r \<and> pot_ok c r) \<and>
   (Next_loop n c = Some r \<longrightarrow> frame_ok c r \<and> pot_ok_loop c r) \<and>
   (call n h c = Some r \<longrightarrow> frame_ok c r \<and> pot_ok c r) \<and>
   (exec n b c = Some r \<longrightarrow> frame_ok c r \<and> pot_ok c r)"
proof (rule runner_rule[where PN = "\<lambda>c r. frame_ok c r \<and> pot_ok c r"
      and PL = "\<lambda>c r. frame_ok c r \<and> pot_ok_loop c r"
      and PC = "\<lambda>h c r. frame_ok c r \<and> pot_ok c r"
      and PE = "\<lambda>b c r. frame_ok c r \<and> pot_ok c r"], goal_cases)
  case (1 c r)
  then show ?case
    using remaining_inc[of c]
    by (auto simp: frame_ok_def pot_ok_def pot_ok_loop_def)
next
  case (5 c c' r)
  then show ?case
    using remaining_inc[of c']
    by (auto simp: frame_ok_def pot_ok_def pot_ok_loop_def dest: append_prefixD)
next
  case (13 b c r)
  then show ?case
    by (auto simp: frame_ok_def pot_ok_def remaining_Abort dest: append_prefixD)
qed (auto simp: frame_ok_def pot_ok_def pot_ok_loop_def dest: append_prefixD)

lemma runner_returns:
  "int (length (handlers c)) \<le> sentinel \<Longrightarrow> max 2 (2 * remaining c) \<le> n \<Longrightarrow> Next n c \<noteq> None"
  "int (length (handlers c)) \<le> sentinel \<Longrightarrow> 2 * remaining c + 1 \<le> n \<Longrightarrow> Next_loop n c \<noteq> None"
  "int (length (handlers c)) \<le> sentinel \<Longrightarrow> max 2 (2 * remaining c) \<le> n \<Longrightarrow> call n h c \<noteq> None"
  "int (length (handlers c)) \<le> sentinel \<Longrightarrow> max 2 (2 * remaining c) \<le> n \<Longrightarrow> exec n b c \<noteq> None"
  "int (length (handlers c)) \<le> sentinel \<Longrightarrow> max 2 (2 * remaining c) \<le> n \<Longrightarrow> GzipMiddleware n c \<noteq> None"
  "int (length (handlers c)) \<le> sentinel \<Longrightarrow> max 2 (2 * remaining c) \<le> n \<Longrightarrow> CompressionMiddleware n c \<noteq> None"
proof (induction n c and n c and n h c and n b c and n c and n c
    rule: Next_Next_loop_call_exec_GzipMiddleware_CompressionMiddleware.induct)
  case (1 c)
  then show ?case by simp
next
  case (2 n c)
  let ?c = "c\<lparr>index := inc64 (index c)\<rparr>"
  from "2.prems" obtain k where n: "n = Suc k" by (cases n) auto
  show ?case
  proof (cases "inc64 (index c) < 0")
    case True
    then show ?thesis by (simp add: n)
  next
    case False
    with remaining_inc[OF "2.prems"(1)] have "remaining ?c \<le> remaining c - 1" by simp
    with "2.prems" have "2 * remaining ?c + 1 \<le> n" by (simp add: n)
    with "2.IH"[of] "2.prems"(1) show ?thesis by simp
  qed
next
  case (3 c)
  then show ?case by simp
next
  case (4 n c)
  show ?case
  proof (cases "index c < int (length (handlers c)) \<and> \<not> index c < 0")
    case False
    then show ?thesis by auto
  next
    case True
    then have lt: "index c < int (length (handlers c))" and nn: "\<not> index c < 0" by auto
    let ?c = "c\<lparr>trace := trace c @ [Invoked (nat (index c))]\<rparr>"
    from True have k: "1 \<le> remaining c" by (auto simp: remaining_def)
    with "4.prems" have b: "max 2 (2 * remaining ?c) \<le> n" by simp
    from "4.IH"(1)[OF lt nn _ b] "4.prems"(1)
    obtain r1 where r1: "call n (handlers c ! nat (index c)) ?c = Some r1" by auto
    show ?thesis
    proof (cases r1)
      case (Panicked m c')
      with r1 lt nn show ?thesis by simp
    next
      case (Returned c')
      let ?c' = "c'\<lparr>index := inc64 (index c')\<rparr>"
      from runner_pot[of n ?c r1 "handlers c ! nat (index c)"] r1 Returned "4.prems"(1)
      have h: "handlers c' = handlers c" and p: "remaining c' \<le> remaining c"
        by (auto simp: frame_ok_def pot_ok_def)
      from h "4.prems"(1) have s: "int (length (handlers ?c')) \<le> sentinel" by simp
      from b k obtain j where n: "n = Suc j" by (cases n) auto
      have "Next_loop n ?c' \<noteq> None"
      proof (cases "inc64 (index c') < 0")
        case True
        then show ?thesis by (simp add: n)
      next
        case False
        with remaining_inc[of c'] h "4.prems"(1) have "remaining ?c' \<le> remaining c' - 1" by simp
        with p k "4.prems"(2) have "2 * remaining ?c' + 1 \<le> n" by simp
        from "4.IH"(2)[OF lt nn r1[unfolded Returned] refl s this] show ?thesis .
      qed
      with r1 Returned lt nn show ?thesis by simp
    qed
  qed
next
  case (10 n b c)
  from "10.IH"(1)[OF "10.prems"] obtain r1 where r1: "Next n c = Some r1" by auto
  show ?case
  proof (cases r1)
    case (Panicked m c')
    with r1 show ?thesis by simp
  next
    case (Returned c')
    from runner_pot[of n c r1] r1 Returned "10.prems"(1)
    have h: "handlers c' = handlers c" and p: "remaining c' \<le> remaining c"
      by (auto simp: frame_ok_def pot_ok_def)
    from h "10.prems"(1) have s: "int (length (handlers c')) \<le> sentinel" by simp
    from p "10.prems"(2) have "max 2 (2 * remaining c') \<le> n" by simp
    from "10.IH"(2)[OF r1[unfolded Returned] refl s this] r1 Returned show ?thesis by simp
  qed
next
  case (11 n b c)
  then show ?case by (simp add: remaining_Abort)
next
  case (15 n c)
  show ?case
  proof (cases "Contains (AcceptEncoding (Request c)) ''gzip''")
    case False
    with 15 show ?thesis by simp
  next
    case True
    then have nn: "\<not> \<not> Contains (AcceptEncoding (Request c)) ''gzip''" by simp
    have "Next n (fst (wrapGzip c)) \<noteq> None"
      using "15.IH"(2)[OF nn refl prod.collapse] "15.prems" by simp
    with True show ?thesis by (auto simp: case_prod_beta)
  qed
next
  case (16 n c)
  show ?case
  proof (cases "Contains (AcceptEncoding (Request c)) ''gzip''")
    case False
    with 16 show ?thesis by simp
  next
    case True
    have "Next n (fst (wrapGzip c)) \<noteq> None"
      using "16.IH"(1)[OF True refl prod.collapse] "16.prems" by simp
    with True show ?thesis by (auto simp: case_prod_beta)
  qed
qed auto

lemma exec_returns:
  assumes "int (length (handlers c)) \<le> sentinel" "2 * length (handlers c) + 2 \<le> n"
  shows "\<exists>r. exec n b c = Some r"
  using runner_returns(4)[of c n b] assms remaining_le[of c] by auto

lemma Next_returns:
  assumes "int (length (handlers c)) \<le> sentinel" "2 * length (handlers c) + 2 \<le> n"
  shows "\<exists>r. Next n c = Some r"
  using runner_returns(1)[of c n] assms remaining_le[of c] by auto

subsection \<open>Which handlers a run invokes\<close>

text \<open>
  \<open>good\<close> ties the log to the cursor for as long as \<open>Abort\<close> has not been called:
  inside a handler, the positions up to the cursor have been invoked, each once, in
  order. Every step of a run keeps it.
\<close>

lemma invoked_append [simp]: "invoked (xs @ ys) = invoked xs @ invoked ys"
  by (induction xs rule: invoked.induct) auto

lemma upt_step:
  "0 \<le> i \<Longrightarrow> i < int L \<Longrightarrow> [0 ..< min L (nat i)] @ [nat i] = [0 ..< min L (nat (i + 1))]"
proof -
  assume a: "0 \<le> i" "i < int L"
  then have "min L (nat i) = nat i" "min L (nat (i + 1)) = Suc (nat i)" by auto
  then show ?thesis by simp
qed

lemma inc64_cases:
  assumes "int L \<le> sentinel" "- 1 \<le> i"
  shows "inc64 i < 0 \<or> (inc64 i = i + 1)"
  using assms by (auto simp: inc64_def)

lemma good_inc:
  assumes "int (length hs) \<le> sentinel" "good hs c" "\<not> inc64 (index c) < 0"
  shows "good_loop hs (c\<lparr>index := inc64 (index c)\<rparr>)"
  using assms inc64_cases[of "length hs" "index c"]
  by (auto simp: good_def good_loop_def)

lemma good_invoke:
  assumes "good_loop hs c" "index c < int (length hs)"
  shows "good hs (c\<lparr>trace := trace c @ [Invoked (nat (index c))]\<rparr>)"
  using assms upt_step[of "index c" "length hs"]
  by (auto simp: good_def good_loop_def)

lemma good_exit:
  assumes "good_loop hs c" "\<not> index c < int (length hs)"
  shows "good hs c"
  using assms by (auto simp: good_def good_loop_def min_def)

lemma good_frame [simp]:
  "good hs (Writer_Write w b c) = good hs c"
  "good hs (gzipWriter_Close a c) = good hs c"
  "good hs (fst (wrapGzip c)) = good hs c"
  "good hs (c\<lparr>Err := e\<rparr>) = good hs c"
  by (simp_all add: good_def)

lemma good_Abort: "good hs c \<Longrightarrow> good hs (Abort c)"
  by (simp add: good_def sentinel_def)

lemma runner_good:
  assumes hs: "int (length hs) \<le> sentinel"
  shows "(Next n c = Some r \<longrightarrow> ends_good hs c r) \<and>
   (Next_loop n c = Some r \<longrightarrow> ends_good_loop hs c r) \<and>
   (call n h c = Some r \<longrightarrow> keeps_good hs c r) \<and>
   (exec n b c = Some r \<longrightarrow> keeps_good hs c r)"
proof (rule runner_rule[where PN = "ends_good hs" and PL = "ends_good_loop hs"
      and PC = "\<lambda>h. keeps_good hs" and PE = "\<lambda>b. keeps_good hs"], goal_cases)
  case (1 c r)
  then show ?case
    using good_inc[OF hs, of c]
    by (auto simp: ends_good_def ends_good_loop_def)
next
  case (2 c)
  then show ?case by (auto simp: ends_good_loop_def)
next
  case (3 c)
  then show ?case using good_exit[of hs c] by (auto simp: ends_good_loop_def good_loop_def)
next
  case (4 c m c')
  then show ?case by (auto simp: ends_good_loop_def)
next
  case (5 c c' r)
  show ?case unfolding ends_good_loop_def
  proof (intro conjI impI allI)
    show "r \<noteq> Returned x" if "index c < 0" for x using that 5 by simp
  next
    fix x assume g: "good_loop hs c" and r: "r = Returned x"
    from g have h: "handlers c = hs" by (simp add: good_loop_def)
    from good_invoke[OF g] 5(1) h 5(3) have g': "good hs c'" by (auto simp: keeps_good_def)
    from 5(4) r have nn: "\<not> inc64 (index c') < 0" by (auto simp: ends_good_loop_def)
    from good_inc[OF hs g' nn] 5(4) r show "good hs x" "int (length hs) \<le> index x"
      by (auto simp: ends_good_loop_def)
  qed
next
  case (8 h c r)
  then show ?case by (auto simp: ends_good_def keeps_good_def)
next
  case (13 b c r)
  then show ?case using good_Abort[of hs c] unfolding keeps_good_def by blast
next
  case (6 b c r) then show ?case by (auto simp: ends_good_def keeps_good_def)
next
  case (7 h c r) then show ?case by (auto simp: ends_good_def keeps_good_def)
next
  case (9 c) then show ?case by (auto simp: ends_good_def keeps_good_def)
next
  case (10 c) then show ?case by (auto simp: ends_good_def keeps_good_def)
next
  case (11 b c m c') then show ?case by (auto simp: ends_good_def keeps_good_def)
next
  case (12 b c c' r) then show ?case unfolding ends_good_def keeps_good_def by blast
next
  case (14 b c m) then show ?case by (auto simp: ends_good_def keeps_good_def)
next
  case (15 b c s r) then show ?case by (auto simp: ends_good_def keeps_good_def)
next
  case (16 b c s r) then show ?case by (auto simp: ends_good_def keeps_good_def)
qed

text \<open>
  The same for a chain whose handlers contain no \<open>Abort\<close> and no \<open>panic\<close>: then the
  log is complete also when the run ends in the panic of a wrapped cursor.
\<close>

lemma steady_frame [simp]:
  "steady hs (Writer_Write w b c) = steady hs c"
  "steady hs (gzipWriter_Close a c) = steady hs c"
  "steady hs (fst (wrapGzip c)) = steady hs c"
  "steady hs (c\<lparr>Err := e\<rparr>) = steady hs c"
  "complete hs (Writer_Write w b c) = complete hs c"
  "complete hs (gzipWriter_Close a c) = complete hs c"
  by (simp_all add: steady_def complete_def)

lemma steady_result_deferred [simp]:
  "steady_result hs e (deferred (gzipWriter_Close a) r) = steady_result hs e r"
  by (cases r) auto

lemma steady_inc:
  assumes "int (length hs) \<le> sentinel" "steady hs c"
  shows "steady_loop hs (c\<lparr>index := inc64 (index c)\<rparr>)"
proof (cases "index c = 2 ^ 63 - 1")
  case True
  with assms have "min (length hs) (nat (index c + 1)) = length hs"
    by (simp add: sentinel_def)
  with assms True show ?thesis by (simp add: steady_def steady_loop_def inc64_def)
next
  case False
  with assms show ?thesis by (auto simp: steady_def steady_loop_def inc64_def)
qed

lemma steady_invoke:
  assumes "steady_loop hs c" "index c < int (length hs)" "0 \<le> index c"
  shows "steady hs (c\<lparr>trace := trace c @ [Invoked (nat (index c))]\<rparr>)"
  using assms upt_step[of "index c" "length hs"]
  by (auto simp: steady_def steady_loop_def)

lemma steady_exit:
  assumes "steady_loop hs c" "\<not> index c < int (length hs)"
  shows "steady hs c"
  using assms by (auto simp: steady_def steady_loop_def min_def)

lemma steady_neg:
  assumes "steady_loop hs c" "index c < 0"
  shows "complete hs c"
  using assms by (auto simp: complete_def steady_loop_def)

lemma runner_steady:
  assumes hs: "int (length hs) \<le> sentinel" and calm: "list_all calm_handler hs"
  shows "(Next n c = Some r \<longrightarrow> steady hs c \<longrightarrow> steady_result hs True r) \<and>
   (Next_loop n c = Some r \<longrightarrow> steady_loop hs c \<longrightarrow> steady_result hs True r) \<and>
   (call n h c = Some r \<longrightarrow> calm_handler h \<longrightarrow> steady hs c \<longrightarrow> steady_result hs False r) \<and>
   (exec n b c = Some r \<longrightarrow> list_all calm b \<longrightarrow> steady hs c \<longrightarrow> steady_result hs False r)"
proof (rule runner_rule[where PN = "\<lambda>c r. steady hs c \<longrightarrow> steady_result hs True r"
      and PL = "\<lambda>c r. steady_loop hs c \<longrightarrow> steady_result hs True r"
      and PC = "\<lambda>h c r. calm_handler h \<longrightarrow> steady hs c \<longrightarrow> steady_result hs False r"
      and PE = "\<lambda>b c r. list_all calm b \<longrightarrow> steady hs c \<longrightarrow> steady_result hs False r"], goal_cases)
  case (1 c r)
  then show ?case using steady_inc[OF hs, of c] by blast
next
  case (2 c)
  then show ?case using steady_neg[of hs c] by simp
next
  case (3 c)
  then show ?case using steady_exit[of hs c] by (auto simp: steady_loop_def)
next
  case (4 c m c')
  show ?case
  proof
    assume s: "steady_loop hs c"
    then have h: "handlers c = hs" by (simp add: steady_loop_def)
    with 4 calm have "calm_handler (handlers c ! nat (index c))"
      by (simp add: list_all_length)
    with 4 steady_invoke[OF s] h show "steady_result hs True (Panicked m c')" by simp
  qed
next
  case (5 c c' r)
  show ?case
  proof
    assume s: "steady_loop hs c"
    then have h: "handlers c = hs" by (simp add: steady_loop_def)
    with 5 calm have "calm_handler (handlers c ! nat (index c))"
      by (simp add: list_all_length)
    with 5 steady_invoke[OF s] h have "steady hs c'" by simp
    from steady_inc[OF hs this] 5(4) show "steady_result hs True r" by simp
  qed
next
  case (6 b c r)
  then show ?case by simp
next
  case (7 h c r)
  then show ?case by (cases r) auto
next
  case (8 h c r)
  then show ?case by (cases r) auto
next
  case (9 c)
  then show ?case by simp
next
  case (10 c)
  then show ?case by simp
next
  case (11 b c m c')
  then show ?case by simp
next
  case (12 b c c' r)
  then show ?case by simp
next
  case (13 b c r)
  then show ?case by simp
next
  case (14 b c m)
  then show ?case by simp
next
  case (15 b c s r)
  then show ?case by simp
next
  case (16 b c s r)
  then show ?case by simp
qed

subsection \<open>After Abort\<close>

text \<open>
  Once \<open>Abort\<close> is in the log the cursor is at or beyond the end of the chain, or
  has wrapped to a negative value, where the next access to the chain panics.
\<close>

lemma no_call_after_abort_append:
  "no_call_after_abort (xs @ ys) =
     (no_call_after_abort xs \<and> no_call_after_abort ys \<and> (Aborted \<in> set xs \<longrightarrow> invoked ys = []))"
  by (induction xs rule: no_call_after_abort.induct) auto

lemma no_abort_no_call_after: "Aborted \<notin> set t \<Longrightarrow> no_call_after_abort t"
  by (induction t rule: no_call_after_abort.induct) auto

lemma halted_frame [simp]:
  "halted b hs (Writer_Write w x c) = halted b hs c"
  "halted b hs (gzipWriter_Close a c) = halted b hs c"
  "halted b hs (fst (wrapGzip c)) = halted b hs c"
  "halted b hs (c\<lparr>Err := e\<rparr>) = halted b hs c"
  by (simp_all add: halted_def)

lemma halted_result_deferred [simp]:
  "halted_result b hs (deferred (gzipWriter_Close a) r) = halted_result b hs r"
  by (cases r) auto

lemma halted_mono: "halted b hs c \<Longrightarrow> b \<le> b' \<Longrightarrow> halted b' hs c"
  by (auto simp: halted_def)

lemma halted_inc:
  assumes "int (length hs) \<le> sentinel" "- (2 ^ 63) \<le> b" "b \<le> - 1" "halted b hs c"
  shows "halted (b + 1) hs (c\<lparr>index := inc64 (index c)\<rparr>)"
  using assms by (auto simp: halted_def inc64_def)

lemma halted_invoke:
  assumes "b \<le> - 1" "halted (b + 1) hs c" "index c < int (length hs)" "0 \<le> index c"
  shows "halted b hs (c\<lparr>trace := trace c @ [Invoked (nat (index c))]\<rparr>)"
  using assms by (auto simp: halted_def no_call_after_abort_append)

lemma halted_exit:
  assumes "halted (b + 1) hs c" "\<not> index c < int (length hs)"
  shows "halted b hs c"
  using assms by (auto simp: halted_def)

lemma halted_Abort:
  assumes "int (length hs) \<le> sentinel" "halted b hs c"
  shows "halted b hs (Abort c)"
  using assms by (auto simp: halted_def no_call_after_abort_append)

lemma runner_halted:
  assumes hs: "int (length hs) \<le> sentinel" and b: "- (2 ^ 63) \<le> b" "b \<le> - 1"
  shows "(Next n c = Some r \<longrightarrow> halted b hs c \<longrightarrow> halted_result b hs r) \<and>
   (Next_loop n c = Some r \<longrightarrow> halted (b + 1) hs c \<longrightarrow> halted_result b hs r) \<and>
   (call n h c = Some r \<longrightarrow> halted b hs c \<longrightarrow> halted_result b hs r) \<and>
   (exec n x c = Some r \<longrightarrow> halted b hs c \<longrightarrow> halted_result b hs r)"
proof (rule runner_rule[where PN = "\<lambda>c r. halted b hs c \<longrightarrow> halted_result b hs r"
      and PL = "\<lambda>c r. halted (b + 1) hs c \<longrightarrow> halted_result b hs r"
      and PC = "\<lambda>h c r. halted b hs c \<longrightarrow> halted_result b hs r"
      and PE = "\<lambda>x c r. halted b hs c \<longrightarrow> halted_result b hs r"], goal_cases)
  case (1 c r)
  then show ?case using halted_inc[OF hs b, of c] by blast
next
  case (2 c)
  then show ?case by simp
next
  case (3 c)
  then show ?case using halted_exit[of b hs c] by (auto simp: halted_def)
next
  case (4 c m c')
  show ?case
  proof
    assume s: "halted (b + 1) hs c"
    then have h: "handlers c = hs" by (simp add: halted_def)
    with 4 halted_invoke[OF b(2) s] show "halted_result b hs (Panicked m c')" by simp
  qed
next
  case (5 c c' r)
  show ?case
  proof
    assume s: "halted (b + 1) hs c"
    then have h: "handlers c = hs" by (simp add: halted_def)
    with 5 halted_invoke[OF b(2) s] have "halted b hs c'" by simp
    from halted_inc[OF hs b this] 5(4) show "halted_result b hs r" by simp
  qed
next
  case (6 x c r)
  then show ?case by simp
next
  case (7 h c r)
  then show ?case by simp
next
  case (8 h c r)
  then show ?case by simp
next
  case (9 c)
  then show ?case using halted_mono[of b hs c "b + 1"] by auto
next
  case (10 c)
  then show ?case by simp
next
  case (11 x c m c')
  then show ?case by simp
next
  case (12 x c c' r)
  then show ?case by simp
next
  case (13 x c r)
  then show ?case using halted_Abort[OF hs, of b c] by blast
next
  case (14 x c m)
  then show ?case using halted_mono[of b hs c "b + 1"] by auto
next
  case (15 x c s r)
  then show ?case by simp
next
  case (16 x c s r)
  then show ?case by simp
qed

subsection \<open>The store of gzip writers only grows\<close>

lemma gz_le_refl [simp]: "gz_le c c"
  by (simp add: gz_le_def)

lemma gz_le_trans: "gz_le a b \<Longrightarrow> gz_le b c \<Longrightarrow> gz_le a c"
  unfolding gz_le_def by (fastforce)

lemma gz_le_updates [simp]:
  "gz_le (c\<lparr>index := i\<rparr>) x = gz_le c x"
  "gz_le (c\<lparr>trace := t\<rparr>) x = gz_le c x"
  "gz_le (c\<lparr>Err := e\<rparr>) x = gz_le c x"
  "gz_le c (x\<lparr>index := i\<rparr>) = gz_le c x"
  "gz_le c (x\<lparr>trace := t\<rparr>) = gz_le c x"
  "gz_le c (x\<lparr>Err := e\<rparr>) = gz_le c x"
  "gz_le (Abort c) x = gz_le c x"
  "gz_le c (Abort x) = gz_le c x"
  by (simp_all add: gz_le_def Abort_def)

lemma gzs_gzipWriter_Write:
  "length (gzs (gzipWriter_Write a b c)) = length (gzs c)"
  "i < length (gzs c) \<Longrightarrow> ResponseWriter (gzs (gzipWriter_Write a b c) ! i) = ResponseWriter (gzs c ! i)"
  "i < length (gzs c) \<Longrightarrow> gz_closed (gzs (gzipWriter_Write a b c) ! i) = gz_closed (gzs c ! i)"
  by (auto simp: gzipWriter_Write_def gz_Write_def Let_def nth_list_update)

lemma gzs_Writer_Write:
  "length (gzs (Writer_Write w b c)) = length (gzs c)"
  "i < length (gzs c) \<Longrightarrow> ResponseWriter (gzs (Writer_Write w b c) ! i) = ResponseWriter (gzs c ! i)"
  "i < length (gzs c) \<Longrightarrow> gz_closed (gzs (Writer_Write w b c) ! i) = gz_closed (gzs c ! i)"
  by (auto simp: Writer_Write_def gzs_gzipWriter_Write split: writer_ref.splits)

lemma gz_le_Writer_Write: "gz_le c (Writer_Write w b c)"
  by (simp add: gz_le_def gzs_Writer_Write)

lemma gzs_gzipWriter_Close:
  "length (gzs (gzipWriter_Close a c)) = length (gzs c)"
  "i < length (gzs c) \<Longrightarrow> ResponseWriter (gzs (gzipWriter_Close a c) ! i) = ResponseWriter (gzs c ! i)"
  "i < length (gzs c) \<Longrightarrow> gz_closed (gzs c ! i) \<Longrightarrow> gz_closed (gzs (gzipWriter_Close a c) ! i)"
  "a < length (gzs c) \<Longrightarrow> gz_closed (gzs (gzipWriter_Close a c) ! a)"
  by (auto simp: gzipWriter_Close_def Let_def gzs_Writer_Write nth_list_update)

lemma gz_le_Close: "gz_le c (gzipWriter_Close a c)"
  by (simp add: gz_le_def gzs_gzipWriter_Close)

lemma wrapGzip_gzs:
  "gzs (fst (wrapGzip c)) = gzs c @ [\<lparr>ResponseWriter = Writer c, gz_data = [], gz_closed = False\<rparr>]"
  "Writer (fst (wrapGzip c)) = GW (length (gzs c))"
  "snd (wrapGzip c) = length (gzs c)"
  by (simp_all add: wrapGzip_def Let_def)

lemma gz_le_wrapGzip: "gz_le c (fst (wrapGzip c))"
  by (simp add: gz_le_def wrapGzip_gzs nth_append)

lemma runner_gz:
  "(Next n c = Some r \<longrightarrow> gz_le c (ctx_of r)) \<and> (Next_loop n c = Some r \<longrightarrow> gz_le c (ctx_of r)) \<and>
   (call n h c = Some r \<longrightarrow> gz_le c (ctx_of r)) \<and> (exec n b c = Some r \<longrightarrow> gz_le c (ctx_of r))"
proof (rule runner_rule[where PN = "\<lambda>c r. gz_le c (ctx_of r)" and PL = "\<lambda>c r. gz_le c (ctx_of r)"
      and PC = "\<lambda>h c r. gz_le c (ctx_of r)" and PE = "\<lambda>b c r. gz_le c (ctx_of r)"], goal_cases)
  case (5 c c' r)
  then show ?case using gz_le_trans[of c c' "ctx_of r"] by simp
next
  case (8 h c r)
  then show ?case
    using gz_le_trans[OF gz_le_wrapGzip[of c] gz_le_trans[OF _ gz_le_Close]] by simp
next
  case (12 b c c' r)
  then show ?case using gz_le_trans[of c c' "ctx_of r"] by simp
next
  case (15 b c s r)
  then show ?case using gz_le_trans[OF gz_le_Writer_Write] by blast
qed simp_all

lemma call_gzip:
  assumes "h = GzipMiddlewareFunc \<or> h = CompressionMiddlewareFunc"
    and "Contains (AcceptEncoding (Request c)) ''gzip''"
  shows "call n h c =
     map_option (deferred (gzipWriter_Close (length (gzs c)))) (Next n (fst (wrapGzip c)))"
  using assms by (auto simp: case_prod_beta wrapGzip_gzs)

section \<open>Properties of safelyHandle\<close>

subsection \<open>It returns\<close>

lemma handle_body_returns:
  assumes "int (length (handlers c)) \<le> sentinel" "2 * length (handlers c) + 2 \<le> n"
  shows "\<exists>r. handle_body n engine c = Some r \<and> handlers (ctx_of r) = handlers c"
proof -
  let ?c = "c\<lparr>trace := trace c @ [PreProcessed]\<rparr>"
  from exec_returns[of ?c n "Pre_Process (WM engine)"] assms
  obtain r0 where r0: "exec n (Pre_Process (WM engine)) ?c = Some r0" by auto
  from exec_handlers[OF r0] have h0: "handlers (ctx_of r0) = handlers c" by simp
  show ?thesis
  proof (cases r0)
    case (Panicked m c1)
    with r0 h0 show ?thesis by (simp add: handle_body_def)
  next
    case (Returned c1)
    with h0 have h1: "handlers c1 = handlers c" by simp
    show ?thesis
    proof (cases "handlers c1 = [] \<or> ParseForm (Request c1) \<noteq> None")
      case True
      with r0 Returned h1 show ?thesis by (auto simp: handle_body_def split: if_splits)
    next
      case False
      from Next_returns[of c1 n] assms h1 obtain r where r: "Next n c1 = Some r" by auto
      from Next_handlers[OF r] h1 have "handlers (ctx_of r) = handlers c" by simp
      with r0 Returned False r show ?thesis by (auto simp: handle_body_def)
    qed
  qed
qed

lemma inner_deferred_returns:
  assumes "int (length (handlers (ctx_of r))) \<le> sentinel" "2 * length (handlers (ctx_of r)) + 2 \<le> n"
  shows "\<exists>r'. inner_deferred n engine r = Some r'"
  using exec_returns[of "(recovered r)\<lparr>trace := trace (recovered r) @ [PostProcessed (Err (recovered r))]\<rparr>" n
      "Post_Process (WM engine)"] assms
  by (simp add: inner_deferred_def Let_def)

lemma safelyHandle_returns:
  assumes "int (length (handlers c)) \<le> sentinel" "2 * length (handlers c) + 2 \<le> n"
  shows "\<exists>r r' c'. handle_body n engine c = Some r \<and> inner_deferred n engine r = Some r' \<and>
           safelyHandle n engine c = Some (Returned c') \<and> outer_deferred r' = Returned c'"
proof -
  from handle_body_returns[OF assms, of engine] obtain r where
    r: "handle_body n engine c = Some r" "handlers (ctx_of r) = handlers c" by auto
  from inner_deferred_returns[of r n engine] r assms obtain r' where
    r': "inner_deferred n engine r = Some r'" by auto
  obtain c' where c': "outer_deferred r' = Returned c'"
    by (cases r') (auto simp: outer_deferred_def)
  with r r' show ?thesis by (auto simp: safelyHandle_def)
qed

subsection \<open>Its log\<close>

lemma handle_body_hooks:
  assumes "handle_body n engine c = Some r"
  shows "hook_events (trace (ctx_of r)) = hook_events (trace c) @ [PreProcessed]"
proof -
  let ?c = "c\<lparr>trace := trace c @ [PreProcessed]\<rparr>"
  from assms obtain r0 where r0: "exec n (Pre_Process (WM engine)) ?c = Some r0"
    by (auto simp: handle_body_def split: option.splits)
  from runner_hooks[of n ?c r0 _ "Pre_Process (WM engine)"] r0
  have h0: "hook_events (trace (ctx_of r0)) = hook_events (trace c) @ [PreProcessed]" by simp
  show ?thesis
  proof (cases r0)
    case (Panicked m c1)
    with r0 h0 assms show ?thesis by (auto simp: handle_body_def)
  next
    case (Returned c1)
    show ?thesis
    proof (cases "handlers c1 = [] \<or> ParseForm (Request c1) \<noteq> None")
      case True
      with r0 Returned h0 assms show ?thesis by (auto simp: handle_body_def split: if_splits)
    next
      case False
      with r0 Returned assms have r: "Next n c1 = Some r" by (auto simp: handle_body_def)
      from runner_hooks[of n c1 r] r h0 Returned show ?thesis by simp
    qed
  qed
qed

lemma inner_deferred_trace:
  assumes "inner_deferred n engine r = Some r'"
  shows "\<exists>rest. trace (ctx_of r') = trace (ctx_of r) @ PostProcessed (Err (recovered r)) # rest \<and>
           hook_events rest = []"
  using exec_new_events[of n "Post_Process (WM engine)"
      "(recovered r)\<lparr>trace := trace (recovered r) @ [PostProcessed (Err (recovered r))]\<rparr>" r'] assms
  by (auto simp: inner_deferred_def Let_def)

lemma outer_deferred_trace [simp]: "trace (ctx_of (outer_deferred r)) = trace (ctx_of r)"
  by (cases r) (auto simp: outer_deferred_def)

lemma handle_body_halted:
  assumes hs: "int (length hs) \<le> sentinel" and h: "halted (- 2) hs c"
    and r: "handle_body n engine c = Some r"
  shows "halted (- 1) hs (ctx_of r)"
proof -
  let ?c = "c\<lparr>trace := trace c @ [PreProcessed]\<rparr>"
  from h have hc: "halted (- 2) hs ?c" by (auto simp: halted_def no_call_after_abort_append)
  from r obtain r0 where r0: "exec n (Pre_Process (WM engine)) ?c = Some r0"
    by (auto simp: handle_body_def split: option.splits)
  from runner_halted[OF hs, of "- 2" n ?c r0 _ "Pre_Process (WM engine)"] r0 hc
  have h0: "halted_result (- 2) hs r0" by simp
  show ?thesis
  proof (cases r0)
    case (Panicked m c1)
    with r0 h0 r show ?thesis by (auto simp: handle_body_def)
  next
    case (Returned c1)
    with h0 have h1: "halted (- 2) hs c1" by simp
    then have h1': "halted (- 1) hs c1" by (rule halted_mono) simp
    show ?thesis
    proof (cases "handlers c1 = [] \<or> ParseForm (Request c1) \<noteq> None")
      case True
      with r0 Returned h1' r show ?thesis by (auto simp: handle_body_def halted_def split: if_splits)
    next
      case False
      with r0 Returned r have n: "Next n c1 = Some r" by (auto simp: handle_body_def)
      from runner_halted[OF hs, of "- 2" n c1 r] n h1 have "halted_result (- 2) hs r" by simp
      then show ?thesis using halted_mono[of "- 2" hs _ "- 1"] by (cases r) auto
    qed
  qed
qed

lemma inner_deferred_halted:
  assumes hs: "int (length hs) \<le> sentinel" and h: "halted (- 1) hs (ctx_of r)"
    and r': "inner_deferred n engine r = Some r'"
  shows "no_call_after_abort (trace (ctx_of r'))"
proof -
  let ?c = "(recovered r)\<lparr>trace := trace (recovered r) @ [PostProcessed (Err (recovered r))]\<rparr>"
  from h have "halted (- 1) hs ?c" by (auto simp: halted_def no_call_after_abort_append)
  with runner_halted[OF hs, of "- 1" n ?c r' _ "Post_Process (WM engine)"] r'
  have "halted_result (- 1) hs r'" by (simp add: inner_deferred_def Let_def)
  then show ?thesis by (cases r') (auto simp: halted_def)
qed

section \<open>Properties of slices and of the registration surface\<close>

subsection \<open>Append\<close>

lemma slice_ok_nil [simp]: "slice_ok eng nil"
  by (simp add: slice_ok_def nil_def)

lemma view_nil [simp]: "view eng nil = []"
  by (simp add: view_def nil_def)

lemma length_view: "slice_ok eng s \<Longrightarrow> length (view eng s) = s_len s"
  by (auto simp: view_def slice_ok_def split: option.splits)

lemma append_slice_frame:
  "groups (snd (append_slice s xs eng)) = groups eng"
  "trees (snd (append_slice s xs eng)) = trees eng"
  "WM (snd (append_slice s xs eng)) = WM eng"
  "ConcurrenceNumSem (snd (append_slice s xs eng)) = ConcurrenceNumSem eng"
  "growslice (snd (append_slice s xs eng)) = growslice eng"
  "length (arrays eng) \<le> length (arrays (snd (append_slice s xs eng)))"
  by (auto simp: append_slice_def Let_def split: option.splits)

lemma append_slice_view:
  assumes "slice_ok eng s"
  shows "view (snd (append_slice s xs eng)) (fst (append_slice s xs eng)) = view eng s @ xs"
proof (cases "xs = []")
  case True
  then show ?thesis by (simp add: append_slice_def)
next
  case ne: False
  show ?thesis
  proof (cases "s_len s + length xs \<le> s_cap s")
    case True
    with ne assms obtain a where a: "s_arr s = Some a" "a < length (arrays eng)"
      "s_cap s \<le> length (arrays eng ! a)"
      by (cases "s_arr s") (auto simp: slice_ok_def)
    with True ne show ?thesis
      by (simp add: append_slice_def view_def write_at_def)
  next
    case False
    with ne length_view[OF assms] show ?thesis
      by (simp add: append_slice_def Let_def) (simp add: view_def)
  qed
qed

lemma append_slice_ok:
  assumes "slice_ok eng s"
  shows "slice_ok (snd (append_slice s xs eng)) (fst (append_slice s xs eng))"
proof (cases "xs = []")
  case True
  with assms show ?thesis by (simp add: append_slice_def)
next
  case ne: False
  show ?thesis
  proof (cases "s_len s + length xs \<le> s_cap s")
    case True
    with ne assms obtain a where a: "s_arr s = Some a" "a < length (arrays eng)"
      "s_cap s \<le> length (arrays eng ! a)"
      by (cases "s_arr s") (auto simp: slice_ok_def)
    with True ne show ?thesis
      by (simp add: append_slice_def slice_ok_def write_at_def)
  next
    case False
    with ne length_view[OF assms] show ?thesis
      by (simp add: append_slice_def slice_ok_def Let_def nth_append)
  qed
qed

lemma append_slice_arr:
  "s_arr (fst (append_slice s xs eng)) = s_arr s \<or>
   s_arr (fst (append_slice s xs eng)) = Some (length (arrays eng))"
  by (auto simp: append_slice_def Let_def split: option.splits)

lemma append_slice_other:
  assumes "slice_ok eng t" and "apart t s"
  shows "view (snd (append_slice s xs eng)) t = view eng t"
    and "slice_ok (snd (append_slice s xs eng)) t"
  using assms
  by (auto simp: append_slice_def Let_def view_def slice_ok_def apart_def nth_append nth_list_update
      split: option.splits)

lemma apart_sym: "apart s t \<Longrightarrow> apart t s"
  by (auto simp: apart_def)

lemma apart_nil [simp]: "apart nil t" "apart t nil"
  by (simp_all add: apart_def nil_def)

lemma apart_appended:
  assumes "slice_ok eng t" and "apart t s"
  shows "apart t (fst (append_slice s xs eng))"
  using assms append_slice_arr[of s xs eng]
  by (auto simp: apart_def slice_ok_def split: option.splits)

lemma view_arrays: "arrays e' = arrays e \<Longrightarrow> view e' s = view e s"
  by (simp add: view_def split: option.splits)

lemma slice_ok_arrays: "arrays e' = arrays e \<Longrightarrow> slice_ok e' s = slice_ok e s"
  by (simp add: slice_ok_def split: option.splits)

text \<open>What the first \<open>append\<close> of \<open>Group\<close> and of a registration yields: a copy in a new array.\<close>

lemma copy_slice:
  assumes "slice_ok eng t"
  shows "view (snd (append_slice nil xs eng)) t = view eng t"
    and "slice_ok (snd (append_slice nil xs eng)) t"
    and "apart t (fst (append_slice nil xs eng))"
proof -
  show "view (snd (append_slice nil xs eng)) t = view eng t"
    using append_slice_other(1)[OF assms, of nil] by simp
  show "slice_ok (snd (append_slice nil xs eng)) t"
    using append_slice_other(2)[OF assms, of nil] by simp
  show "apart t (fst (append_slice nil xs eng))"
    using apart_appended[OF assms, of nil] by simp
qed

lemma copy_slice_new:
  shows "slice_ok (snd (append_slice nil xs eng)) (fst (append_slice nil xs eng))"
    and "view (snd (append_slice nil xs eng)) (fst (append_slice nil xs eng)) = xs"
    and "s_arr (fst (append_slice nil xs eng)) = None \<or>
         s_arr (fst (append_slice nil xs eng)) = Some (length (arrays eng))"
proof -
  show "slice_ok (snd (append_slice nil xs eng)) (fst (append_slice nil xs eng))"
    using append_slice_ok[of eng nil] by simp
  show "view (snd (append_slice nil xs eng)) (fst (append_slice nil xs eng)) = xs"
    using append_slice_view[of eng nil] by simp
  show "s_arr (fst (append_slice nil xs eng)) = None \<or>
         s_arr (fst (append_slice nil xs eng)) = Some (length (arrays eng))"
    using append_slice_arr[of nil xs eng] by (simp add: nil_def)
qed

subsection \<open>Keeping the slices separated\<close>

lemma separated_new_group:
  assumes sep: "separated eng"
    and ok: "\<And>t. slice_ok eng t \<Longrightarrow> slice_ok eng' t"
    and gr: "groups eng' = groups eng @ [\<lparr>Handlers = s\<rparr>]" and tr: "trees eng' = trees eng"
    and s: "slice_ok eng' s" and ap: "\<And>t. slice_ok eng t \<Longrightarrow> apart t s"
  shows "separated eng'"
  unfolding separated_def
proof (intro conjI allI impI)
  fix g assume "g < length (groups eng')"
  then show "slice_ok eng' (Handlers (groups eng' ! g))"
    using sep ok s by (cases "g < length (groups eng)") (auto simp: gr separated_def nth_append)
next
  fix i assume "i < length (trees eng')"
  then show "slice_ok eng' (node_handlers (root (trees eng' ! i)))"
    using sep ok by (simp add: tr separated_def)
next
  fix g g' assume "g < length (groups eng')" "g' < length (groups eng')" "g \<noteq> g'"
  then show "apart (Handlers (groups eng' ! g)) (Handlers (groups eng' ! g'))"
    using sep ap apart_sym[OF ap]
    by (cases "g < length (groups eng)"; cases "g' < length (groups eng)")
      (auto simp: gr separated_def nth_append)
next
  fix i i' assume "i < length (trees eng')" "i' < length (trees eng')" "i \<noteq> i'"
  then show "apart (node_handlers (root (trees eng' ! i))) (node_handlers (root (trees eng' ! i')))"
    using sep by (simp add: tr separated_def)
next
  fix g i assume "g < length (groups eng')" "i < length (trees eng')"
  then show "apart (Handlers (groups eng' ! g)) (node_handlers (root (trees eng' ! i)))"
    using sep apart_sym[OF ap]
    by (cases "g < length (groups eng)") (auto simp: gr tr separated_def nth_append)
qed

lemma separated_new_tree:
  assumes sep: "separated eng"
    and ok: "\<And>t. slice_ok eng t \<Longrightarrow> slice_ok eng' t"
    and gr: "groups eng' = groups eng"
    and tr: "trees eng' = trees eng @ [\<lparr>meth = m, root = \<lparr>path = p, regexp = rx, node_handlers = s\<rparr>\<rparr>]"
    and s: "slice_ok eng' s" and ap: "\<And>t. slice_ok eng t \<Longrightarrow> apart t s"
  shows "separated eng'"
  unfolding separated_def
proof (intro conjI allI impI)
  fix g assume "g < length (groups eng')"
  then show "slice_ok eng' (Handlers (groups eng' ! g))"
    using sep ok by (simp add: gr separated_def)
next
  fix i assume "i < length (trees eng')"
  then show "slice_ok eng' (node_handlers (root (trees eng' ! i)))"
    using sep ok s by (cases "i < length (trees eng)") (auto simp: tr separated_def nth_append)
next
  fix g g' assume "g < length (groups eng')" "g' < length (groups eng')" "g \<noteq> g'"
  then show "apart (Handlers (groups eng' ! g)) (Handlers (groups eng' ! g'))"
    using sep by (simp add: gr separated_def)
next
  fix i i' assume "i < length (trees eng')" "i' < length (trees eng')" "i \<noteq> i'"
  then show "apart (node_handlers (root (trees eng' ! i))) (node_handlers (root (trees eng' ! i')))"
    using sep ap apart_sym[OF ap]
    by (cases "i < length (trees eng)"; cases "i' < length (trees eng)")
      (auto simp: tr separated_def nth_append)
next
  fix g i assume "g < length (groups eng')" "i < length (trees eng')"
  then show "apart (Handlers (groups eng' ! g)) (node_handlers (root (trees eng' ! i)))"
    using sep ap
    by (cases "i < length (trees eng)") (auto simp: gr tr separated_def nth_append)
qed

lemma separated_update_group:
  assumes sep: "separated eng" and g: "g < length (groups eng)"
    and ok: "\<And>t. slice_ok eng t \<Longrightarrow> apart t (Handlers (groups eng ! g)) \<Longrightarrow> slice_ok eng' t"
    and gr: "groups eng' = (groups eng)[g := \<lparr>Handlers = s\<rparr>]" and tr: "trees eng' = trees eng"
    and s: "slice_ok eng' s"
    and ap: "\<And>t. slice_ok eng t \<Longrightarrow> apart t (Handlers (groups eng ! g)) \<Longrightarrow> apart t s"
  shows "separated eng'"
  unfolding separated_def
proof (intro conjI allI impI)
  fix h assume "h < length (groups eng')"
  then show "slice_ok eng' (Handlers (groups eng' ! h))"
    using sep ok s g by (cases "h = g") (auto simp: gr separated_def)
next
  fix i assume "i < length (trees eng')"
  then show "slice_ok eng' (node_handlers (root (trees eng' ! i)))"
    using sep ok g apart_sym by (auto simp: tr separated_def)
next
  fix h h' assume "h < length (groups eng')" "h' < length (groups eng')" "h \<noteq> h'"
  then show "apart (Handlers (groups eng' ! h)) (Handlers (groups eng' ! h'))"
    using sep g ap apart_sym[OF ap]
    by (cases "h = g"; cases "h' = g") (auto simp: gr separated_def)
next
  fix i i' assume "i < length (trees eng')" "i' < length (trees eng')" "i \<noteq> i'"
  then show "apart (node_handlers (root (trees eng' ! i))) (node_handlers (root (trees eng' ! i')))"
    using sep by (simp add: tr separated_def)
next
  fix h i assume "h < length (groups eng')" "i < length (trees eng')"
  then show "apart (Handlers (groups eng' ! h)) (node_handlers (root (trees eng' ! i)))"
    using sep g apart_sym[OF ap] apart_sym
    by (cases "h = g") (auto simp: gr tr separated_def)
qed

subsection \<open>One call on the registration surface\<close>

lemma Group_step:
  assumes sep: "separated eng" and p: "p < length (groups eng)"
  shows "fst (Group p eng) = length (groups eng)"
    and "separated (snd (Group p eng))"
    and "length (groups (snd (Group p eng))) = Suc (length (groups eng))"
    and "trees (snd (Group p eng)) = trees eng"
    and "group_view (snd (Group p eng)) (length (groups eng)) = group_view eng p"
    and "\<forall>g < length (groups eng). group_view (snd (Group p eng)) g = group_view eng g"
    and "\<forall>i < length (trees eng). chain_view (snd (Group p eng)) i = chain_view eng i"
proof -
  let ?xs = "view eng (Handlers (groups eng ! p))"
  let ?hs = "fst (append_slice nil ?xs eng)"
  let ?e1 = "snd (append_slice nil ?xs eng)"
  let ?e = "?e1\<lparr>groups := groups ?e1 @ [\<lparr>Handlers = ?hs\<rparr>]\<rparr>"
  have G: "Group p eng = (length (groups eng), ?e)"
    using p by (simp add: Group_def case_prod_beta append_slice_frame)
  have gr: "groups ?e = groups eng @ [\<lparr>Handlers = ?hs\<rparr>]" and tr: "trees ?e = trees eng"
    and ar: "arrays ?e = arrays ?e1"
    by (simp_all add: append_slice_frame)
  note v = view_arrays[OF ar] and o = slice_ok_arrays[OF ar]
  show "fst (Group p eng) = length (groups eng)" using G by simp
  show "length (groups (snd (Group p eng))) = Suc (length (groups eng))" using G gr by simp
  show "trees (snd (Group p eng)) = trees eng" using G tr by simp
  show "group_view (snd (Group p eng)) (length (groups eng)) = group_view eng p"
    using G gr v copy_slice_new(2)[of ?xs eng] by (simp add: group_view_def)
  show "\<forall>g < length (groups eng). group_view (snd (Group p eng)) g = group_view eng g"
    using G gr v sep copy_slice(1)[of eng _ ?xs]
    by (simp add: group_view_def nth_append separated_def)
  show "\<forall>i < length (trees eng). chain_view (snd (Group p eng)) i = chain_view eng i"
    using G tr v sep copy_slice(1)[of eng _ ?xs]
    by (simp add: chain_view_def separated_def)
  have "separated ?e"
  proof (rule separated_new_group[OF sep _ gr tr])
    show "slice_ok ?e t" if "slice_ok eng t" for t using that copy_slice(2)[of eng t ?xs] o by simp
    show "slice_ok ?e ?hs" using copy_slice_new(1)[of ?xs eng] o by simp
    show "apart t ?hs" if "slice_ok eng t" for t using that by (rule copy_slice(3))
  qed
  then show "separated (snd (Group p eng))" using G by simp
qed

lemma Use_step:
  assumes sep: "separated eng" and g: "g < length (groups eng)"
  shows "separated (Use g mw eng)"
    and "length (groups (Use g mw eng)) = length (groups eng)"
    and "trees (Use g mw eng) = trees eng"
    and "group_view (Use g mw eng) g = group_view eng g @ mw"
    and "\<forall>h < length (groups eng). h \<noteq> g \<longrightarrow> group_view (Use g mw eng) h = group_view eng h"
    and "\<forall>i < length (trees eng). chain_view (Use g mw eng) i = chain_view eng i"
proof -
  let ?s = "Handlers (groups eng ! g)"
  let ?hs = "fst (append_slice ?s mw eng)"
  let ?e1 = "snd (append_slice ?s mw eng)"
  let ?e = "?e1\<lparr>groups := (groups ?e1)[g := \<lparr>Handlers = ?hs\<rparr>]\<rparr>"
  have U: "Use g mw eng = ?e" using g by (simp add: Use_def case_prod_beta)
  have gr: "groups ?e = (groups eng)[g := \<lparr>Handlers = ?hs\<rparr>]" and tr: "trees ?e = trees eng"
    and ar: "arrays ?e = arrays ?e1"
    by (simp_all add: append_slice_frame)
  note v = view_arrays[OF ar] and o = slice_ok_arrays[OF ar]
  from sep g have sok: "slice_ok eng ?s" by (simp add: separated_def)
  show "length (groups (Use g mw eng)) = length (groups eng)" using U gr by simp
  show "trees (Use g mw eng) = trees eng" using U tr by simp
  show "group_view (Use g mw eng) g = group_view eng g @ mw"
    using U gr v g append_slice_view[OF sok, of mw] by (simp add: group_view_def)
  show "\<forall>h < length (groups eng). h \<noteq> g \<longrightarrow> group_view (Use g mw eng) h = group_view eng h"
    using U gr v g sep append_slice_other(1)[of eng _ ?s mw]
    by (simp add: group_view_def separated_def)
  show "\<forall>i < length (trees eng). chain_view (Use g mw eng) i = chain_view eng i"
    using U tr v g sep append_slice_other(1)[of eng _ ?s mw] apart_sym
    by (simp add: chain_view_def separated_def)
  have "separated ?e"
  proof (rule separated_update_group[OF sep g _ gr tr])
    show "slice_ok ?e t" if "slice_ok eng t" "apart t ?s" for t
      using that append_slice_other(2)[of eng t ?s mw] o by simp
    show "slice_ok ?e ?hs" using append_slice_ok[OF sok, of mw] o by simp
    show "apart t ?hs" if "slice_ok eng t" "apart t ?s" for t
      using that by (rule apart_appended)
  qed
  then show "separated (Use g mw eng)" using U by simp
qed

lemma chain_of_step:
  assumes sep: "separated eng" and g: "g < length (groups eng)"
  shows "groups (snd (chain_of g h eng)) = groups eng"
    and "trees (snd (chain_of g h eng)) = trees eng"
    and "view (snd (chain_of g h eng)) (fst (chain_of g h eng)) = group_view eng g @ [h]"
    and "slice_ok (snd (chain_of g h eng)) (fst (chain_of g h eng))"
    and "\<And>t. slice_ok eng t \<Longrightarrow> view (snd (chain_of g h eng)) t = view eng t \<and>
           slice_ok (snd (chain_of g h eng)) t \<and> apart t (fst (chain_of g h eng))"
proof -
  let ?xs = "view eng (Handlers (groups eng ! g))"
  let ?s1 = "fst (append_slice nil ?xs eng)"
  let ?e1 = "snd (append_slice nil ?xs eng)"
  have C: "chain_of g h eng = append_slice ?s1 [h] ?e1"
    by (simp add: chain_of_def case_prod_beta)
  note n1 = copy_slice_new[of ?xs eng]
  show "groups (snd (chain_of g h eng)) = groups eng" "trees (snd (chain_of g h eng)) = trees eng"
    by (simp_all add: C append_slice_frame)
  show "view (snd (chain_of g h eng)) (fst (chain_of g h eng)) = group_view eng g @ [h]"
    using append_slice_view[OF n1(1), of "[h]"] n1(2) by (simp add: C group_view_def)
  show "slice_ok (snd (chain_of g h eng)) (fst (chain_of g h eng))"
    using append_slice_ok[OF n1(1), of "[h]"] by (simp add: C)
  show "view (snd (chain_of g h eng)) t = view eng t \<and>
           slice_ok (snd (chain_of g h eng)) t \<and> apart t (fst (chain_of g h eng))"
    if t: "slice_ok eng t" for t
  proof -
    note c = copy_slice[OF t, of ?xs]
    have "view (snd (append_slice ?s1 [h] ?e1)) t = view ?e1 t"
      using append_slice_other(1)[OF c(2) c(3)] .
    moreover have "slice_ok (snd (append_slice ?s1 [h] ?e1)) t"
      using append_slice_other(2)[OF c(2) c(3)] .
    moreover have "apart t (fst (append_slice ?s1 [h] ?e1))"
      using apart_appended[OF c(2) c(3)] .
    ultimately show ?thesis using c(1) by (simp add: C)
  qed
qed

lemma register_step:
  assumes sep: "separated eng" and g: "g < length (groups eng)"
  shows "separated (register m p rx g h eng)"
    and "groups (register m p rx g h eng) = groups eng"
    and "length (trees (register m p rx g h eng)) = Suc (length (trees eng))"
    and "take (length (trees eng)) (trees (register m p rx g h eng)) = trees eng"
    and "chain_view (register m p rx g h eng) (length (trees eng)) = group_view eng g @ [h]"
    and "\<forall>h' < length (groups eng). group_view (register m p rx g h eng) h' = group_view eng h'"
    and "\<forall>i < length (trees eng). chain_view (register m p rx g h eng) i = chain_view eng i"
proof -
  let ?hs = "fst (chain_of g h eng)"
  let ?e1 = "snd (chain_of g h eng)"
  let ?e = "?e1\<lparr>trees := trees ?e1 @ [\<lparr>meth = m, root = \<lparr>path = p, regexp = rx, node_handlers = ?hs\<rparr>\<rparr>]\<rparr>"
  note c = chain_of_step[OF sep g, where h = h]
  have R: "register m p rx g h eng = ?e" using g by (simp add: register_def case_prod_beta)
  have gr: "groups ?e = groups eng"
    and tr: "trees ?e = trees eng @ [\<lparr>meth = m, root = \<lparr>path = p, regexp = rx, node_handlers = ?hs\<rparr>\<rparr>]"
    and ar: "arrays ?e = arrays ?e1"
    by (simp_all add: c)
  note v = view_arrays[OF ar] and o = slice_ok_arrays[OF ar]
  show "groups (register m p rx g h eng) = groups eng" using R gr by simp
  show "length (trees (register m p rx g h eng)) = Suc (length (trees eng))" using R tr by simp
  show "take (length (trees eng)) (trees (register m p rx g h eng)) = trees eng" using R tr by simp
  show "chain_view (register m p rx g h eng) (length (trees eng)) = group_view eng g @ [h]"
    using R tr v c(3) by (simp add: chain_view_def)
  show "\<forall>h' < length (groups eng). group_view (register m p rx g h eng) h' = group_view eng h'"
    using R gr v sep c(5) by (simp add: group_view_def separated_def)
  show "\<forall>i < length (trees eng). chain_view (register m p rx g h eng) i = chain_view eng i"
    using R tr v sep c(5) by (simp add: chain_view_def separated_def nth_append)
  have "separated ?e"
  proof (rule separated_new_tree[OF sep _ gr tr])
    show "slice_ok ?e t" if "slice_ok eng t" for t using that c(5)[of t] o by simp
    show "slice_ok ?e ?hs" using c(4) o by simp
    show "apart t ?hs" if "slice_ok eng t" for t using that c(5)[of t] by simp
  qed
  then show "separated (register m p rx g h eng)" using R by simp
qed

subsection \<open>Sequences of calls\<close>

lemma separated_Default: "separated (Default wm gs)"
  by (simp add: separated_def Default_def)

lemma reg_step_props:
  assumes sep: "separated eng"
  shows "separated (reg_step eng c)"
    and "length (groups eng) \<le> length (groups (reg_step eng c))"
    and "take (length (trees eng)) (trees (reg_step eng c)) = trees eng"
    and "\<forall>g < length (groups eng). \<not> uses_group g c \<longrightarrow>
           group_view (reg_step eng c) g = group_view eng g"
    and "\<forall>i < length (trees eng). chain_view (reg_step eng c) i = chain_view eng i"
proof -
  have "separated (reg_step eng c) \<and>
    length (groups eng) \<le> length (groups (reg_step eng c)) \<and>
    take (length (trees eng)) (trees (reg_step eng c)) = trees eng \<and>
    (\<forall>g < length (groups eng). \<not> uses_group g c \<longrightarrow>
           group_view (reg_step eng c) g = group_view eng g) \<and>
    (\<forall>i < length (trees eng). chain_view (reg_step eng c) i = chain_view eng i)"
  proof (cases c)
    case (CallGroup p)
    show ?thesis
    proof (cases "p < length (groups eng)")
      case True
      from Group_step[OF sep True] CallGroup show ?thesis by simp
    next
      case False
      with sep CallGroup show ?thesis by (simp add: Group_def)
    qed
  next
    case (CallUse g mw)
    show ?thesis
    proof (cases "g < length (groups eng)")
      case True
      from Use_step[OF sep True, of mw] CallUse show ?thesis by simp
    next
      case False
      with sep CallUse show ?thesis by (simp add: Use_def)
    qed
  next
    case (CallRegister m p rx g h)
    show ?thesis
    proof (cases "g < length (groups eng)")
      case True
      from register_step[OF sep True, of m p rx h] CallRegister show ?thesis by simp
    next
      case False
      with sep CallRegister show ?thesis by (simp add: register_def)
    qed
  qed
  then show "separated (reg_step eng c)"
    and "length (groups eng) \<le> length (groups (reg_step eng c))"
    and "take (length (trees eng)) (trees (reg_step eng c)) = trees eng"
    and "\<forall>g < length (groups eng). \<not> uses_group g c \<longrightarrow>
           group_view (reg_step eng c) g = group_view eng g"
    and "\<forall>i < length (trees eng). chain_view (reg_step eng c) i = chain_view eng i"
    by blast+
qed

lemma take_eq_length: "take (length xs) ys = xs \<Longrightarrow> length xs \<le> length ys"
proof -
  assume "take (length xs) ys = xs"
  then have "length (take (length xs) ys) = length xs" by simp
  then show ?thesis by simp
qed

lemma take_prefix_trans:
  assumes "take (length xs) ys = xs" and "take (length ys) zs = ys"
  shows "take (length xs) zs = xs"
proof -
  from assms(1) have "length xs \<le> length ys" by (rule take_eq_length)
  then have "take (length xs) zs = take (length xs) (take (length ys) zs)" by (simp add: min_def)
  with assms show ?thesis by simp
qed

lemma reg_calls_props:
  assumes "separated eng"
  shows "separated (reg_calls cs eng) \<and>
    length (groups eng) \<le> length (groups (reg_calls cs eng)) \<and>
    take (length (trees eng)) (trees (reg_calls cs eng)) = trees eng \<and>
    (\<forall>g < length (groups eng). (\<forall>c \<in> set cs. \<not> uses_group g c) \<longrightarrow>
           group_view (reg_calls cs eng) g = group_view eng g) \<and>
    (\<forall>i < length (trees eng). chain_view (reg_calls cs eng) i = chain_view eng i)"
  using assms
proof (induction cs arbitrary: eng)
  case Nil
  then show ?case by (simp add: reg_calls_def)
next
  case (Cons c cs)
  let ?e = "reg_step eng c"
  note s = reg_step_props[OF Cons.prems, of c]
  note ih = Cons.IH[OF s(1)]
  have r: "reg_calls (c # cs) eng = reg_calls cs ?e" by (simp add: reg_calls_def)
  from s(3) have tl: "length (trees eng) \<le> length (trees ?e)" by (rule take_eq_length)
  show ?case unfolding r
  proof (intro conjI allI impI)
    show "separated (reg_calls cs ?e)" using ih by simp
    show "length (groups eng) \<le> length (groups (reg_calls cs ?e))" using ih s(2) by simp
    show "take (length (trees eng)) (trees (reg_calls cs ?e)) = trees eng"
      using take_prefix_trans[OF s(3)] ih by simp
    show "group_view (reg_calls cs ?e) g = group_view eng g"
      if "g < length (groups eng)" "\<forall>c \<in> set (c # cs). \<not> uses_group g c" for g
      using that ih s(2) s(4) by simp
    show "chain_view (reg_calls cs ?e) i = chain_view eng i" if "i < length (trees eng)" for i
      using that ih s(5) tl by simp
  qed
qed

lemma reg_calls_append: "reg_calls (cs1 @ cs2) eng = reg_calls cs2 (reg_calls cs1 eng)"
  by (simp add: reg_calls_def)

section \<open>The middleware chain\<close>

lemmas example_defs = example_request_def empty_response_def chain_context_def new_context_def
  quiet_engine_def failing_hook_engine_def Default_def

text \<open>
  C1, as amended. For every chain, no longer than the sentinel, in which no handler
  calls \<open>Abort\<close> or panics, the dispatcher's call of \<open>Next\<close> on a new context (cursor at
  \<open>-1\<close>, empty log) returns once the call depth suffices, and its log is exactly
  \<open>Invoked 0, ..., Invoked (n - 1)\<close>: every handler ran, once, in chain order. This
  holds whether or not the handlers call \<open>Next\<close>; calling \<open>Next\<close> is not required of
  them, and a handler that returns without calling it does not end the chain.
\<close>

theorem chain_runs_every_handler:
  assumes "int (length hs) \<le> sentinel" and "list_all calm_handler hs"
    and "handlers c = hs" and "index c = - 1" and "trace c = []"
    and "2 * length hs + 2 \<le> n"
  shows "\<exists>r. Next n c = Some r \<and> trace (ctx_of r) = map Invoked [0 ..< length hs]"
proof -
  from assms have "max 2 (2 * remaining c) \<le> n" by (simp add: remaining_def)
  with runner_returns(1)[of c n] assms obtain r where r: "Next n c = Some r" by auto
  from assms have "steady hs c" by (simp add: steady_def)
  with runner_steady[OF assms(1,2), of n c r] r have sr: "steady_result hs True r" by simp
  then have "invoked (trace (ctx_of r)) = [0 ..< length hs] \<and> Aborted \<notin> set (trace (ctx_of r))"
    by (cases r) (auto simp: steady_def complete_def min_def)
  moreover from runner_hooks[of n c r] r assms have "hook_events (trace (ctx_of r)) = []" by simp
  ultimately have "trace (ctx_of r) = map Invoked [0 ..< length hs]"
    using only_calls[of "trace (ctx_of r)"] by simp
  with r show ?thesis by blast
qed

text \<open>Three handlers, one of them the gzip middleware, none calls \<open>Abort\<close> or panics.\<close>

theorem chain_runs_every_handler_witness:
  "int (length [Func [Write ''a''], Func [CallNext, Write ''b''], GzipMiddlewareFunc]) \<le> sentinel \<and>
   list_all calm_handler [Func [Write ''a''], Func [CallNext, Write ''b''], GzipMiddlewareFunc] \<and>
   (\<exists>r. Next 8 (chain_context [Func [Write ''a''], Func [CallNext, Write ''b''], GzipMiddlewareFunc]) = Some r \<and>
        trace (ctx_of r) = [Invoked 0, Invoked 1, Invoked 2])"
proof -
  let ?hs = "[Func [Write ''a''], Func [CallNext, Write ''b''], GzipMiddlewareFunc]"
  have h1: "int (length ?hs) \<le> sentinel" by (simp add: sentinel_def)
  have h2: "list_all calm_handler ?hs" by simp
  have h3: "handlers (chain_context ?hs) = ?hs" "index (chain_context ?hs) = - 1"
    "trace (chain_context ?hs) = []" by (simp_all add: example_defs)
  have h4: "2 * length ?hs + 2 \<le> 8" by simp
  have u: "[0 ..< length ?hs] = [0, 1, 2]" by (simp add: upt_rec)
  from chain_runs_every_handler[OF h1 h2 h3 h4] u h1 h2 show ?thesis by (simp add: eval_nat_numeral)
qed

text \<open>
  The first handler returns without calling \<open>Next\<close>; the second is invoked all the
  same.
\<close>

theorem bare_return_counterexample:
  "CallNext \<notin> set [Write ''a''] \<and>
   map_option (trace \<circ> ctx_of) (Next 6 (chain_context [Func [Write ''a''], Func [Write ''b'']]))
     = Some [Invoked 0, Invoked 1]"
  by (simp add: example_defs numeral_nat inc64_def)

text \<open>
  C10. First part: when the loop of \<open>Next\<close> stands at a position \<open>k\<close> that is not
  the last one and the handler there only writes and sets the error (it calls
  neither \<open>Next\<close> nor \<open>Abort\<close> and does not panic), that handler returns with the
  cursor still at \<open>k\<close>, and the loop goes on at cursor \<open>k + 1\<close> by invoking the handler
  at position \<open>k + 1\<close>. Second part: if the dispatcher's call of \<open>Next\<close> on a new
  context returns normally (no panic) and \<open>Abort\<close> was never called, then every handler
  of the chain was invoked, once and in order: nothing but \<open>Abort\<close> or a panic
  skips a handler.
\<close>

theorem bare_return_continues:
  "(int (length (handlers c)) \<le> sentinel \<and> 0 \<le> index c \<and>
      index c + 1 < int (length (handlers c)) \<and>
      handlers c ! nat (index c) = Func b \<and> list_all plain b \<longrightarrow>
    (\<exists>c1. exec (Suc n) b (c\<lparr>trace := trace c @ [Invoked (nat (index c))]\<rparr>) = Some (Returned c1) \<and>
       index c1 = index c \<and> trace c1 = trace c @ [Invoked (nat (index c))] \<and>
       Next_loop (Suc (Suc n)) c =
         (case call n (handlers c ! nat (index c + 1))
                 (c1\<lparr>index := index c + 1,
                     trace := trace c @ [Invoked (nat (index c)), Invoked (nat (index c + 1))]\<rparr>) of
            None \<Rightarrow> None
          | Some (Panicked m c') \<Rightarrow> Some (Panicked m c')
          | Some (Returned c') \<Rightarrow> Next_loop n (c'\<lparr>index := inc64 (index c')\<rparr>)))) \<and>
   (int (length (handlers c0)) \<le> sentinel \<and> index c0 = - 1 \<and> trace c0 = [] \<and>
      Next k c0 = Some (Returned c') \<and> Aborted \<notin> set (trace c') \<longrightarrow>
    trace c' = map Invoked [0 ..< length (handlers c0)])"
proof (intro conjI impI)
  assume a: "int (length (handlers c)) \<le> sentinel \<and> 0 \<le> index c \<and>
      index c + 1 < int (length (handlers c)) \<and>
      handlers c ! nat (index c) = Func b \<and> list_all plain b"
  let ?c = "c\<lparr>trace := trace c @ [Invoked (nat (index c))]\<rparr>"
  from a exec_plain[of b "Suc n" ?c] obtain c1 where
    c1: "exec (Suc n) b ?c = Some (Returned c1)" "index c1 = index c" "handlers c1 = handlers c"
      "trace c1 = trace c @ [Invoked (nat (index c))]"
    by auto
  from a have i: "inc64 (index c) = index c + 1" by (auto simp: inc64_def sentinel_def)
  let ?c1 = "c1\<lparr>index := index c + 1\<rparr>"
  have "Next_loop (Suc (Suc n)) c = Next_loop (Suc n) ?c1"
    using a c1 i by simp
  also have "\<dots> = (case call n (handlers c ! nat (index c + 1))
                 (c1\<lparr>index := index c + 1,
                     trace := trace c @ [Invoked (nat (index c)), Invoked (nat (index c + 1))]\<rparr>) of
            None \<Rightarrow> None
          | Some (Panicked m c') \<Rightarrow> Some (Panicked m c')
          | Some (Returned c') \<Rightarrow> Next_loop n (c'\<lparr>index := inc64 (index c')\<rparr>))"
    using a c1 by simp
  finally show "\<exists>c1. exec (Suc n) b ?c = Some (Returned c1) \<and>
       index c1 = index c \<and> trace c1 = trace c @ [Invoked (nat (index c))] \<and>
       Next_loop (Suc (Suc n)) c =
         (case call n (handlers c ! nat (index c + 1))
                 (c1\<lparr>index := index c + 1,
                     trace := trace c @ [Invoked (nat (index c)), Invoked (nat (index c + 1))]\<rparr>) of
            None \<Rightarrow> None
          | Some (Panicked m c') \<Rightarrow> Some (Panicked m c')
          | Some (Returned c') \<Rightarrow> Next_loop n (c'\<lparr>index := inc64 (index c')\<rparr>))"
    using c1 by blast
next
  assume a: "int (length (handlers c0)) \<le> sentinel \<and> index c0 = - 1 \<and> trace c0 = [] \<and>
      Next k c0 = Some (Returned c') \<and> Aborted \<notin> set (trace c')"
  let ?hs = "handlers c0"
  from a have g: "good ?hs c0" by (simp add: good_def)
  from a runner_good[of ?hs k c0 "Returned c'"] g
  have "good ?hs c'" "int (length ?hs) \<le> index c'" by (auto simp: ends_good_def)
  with a have "invoked (trace c') = [0 ..< length ?hs]" by (auto simp: good_def min_def)
  moreover from a runner_hooks[of k c0 "Returned c'"] have "hook_events (trace c') = []" by simp
  ultimately show "trace c' = map Invoked [0 ..< length (handlers c0)]"
    using a only_calls[of "trace c'"] by simp
qed

text \<open>The loop at position 1 of three, and a run of two handlers that only write.\<close>

theorem bare_return_continues_witness:
  "(\<exists>c1. exec 5 [Write ''a''] ((chain_context [Func [CallNext], Func [Write ''a''], Func [Write ''b'']])
              \<lparr>index := 1, trace := [Invoked 0, Invoked 1]\<rparr>) = Some (Returned c1) \<and>
      index c1 = 1 \<and> trace c1 = [Invoked 0, Invoked 1] \<and>
      map_option (trace \<circ> ctx_of)
        (Next_loop 6 ((chain_context [Func [CallNext], Func [Write ''a''], Func [Write ''b'']])
              \<lparr>index := 1, trace := [Invoked 0]\<rparr>)) = Some [Invoked 0, Invoked 1, Invoked 2]) \<and>
   (\<exists>c'. Next 6 (chain_context [Func [Write ''a''], Func [Write ''b'']]) = Some (Returned c') \<and>
      Aborted \<notin> set (trace c') \<and> trace c' = [Invoked 0, Invoked 1])"
proof -
  let ?hs = "[Func [CallNext], Func [Write ''a''], Func [Write ''b'']]"
  let ?c = "(chain_context ?hs)\<lparr>index := 1, trace := [Invoked 0]\<rparr>"
  let ?d = "chain_context [Func [Write ''a''], Func [Write ''b'']]"
  have a: "int (length (handlers ?c)) \<le> sentinel \<and> 0 \<le> index ?c \<and>
      index ?c + 1 < int (length (handlers ?c)) \<and>
      handlers ?c ! nat (index ?c) = Func [Write ''a''] \<and> list_all plain [Write ''a'']"
    by (simp add: example_defs sentinel_def nth_Cons')
  have e: "\<exists>c'. Next 6 ?d = Some (Returned c') \<and> Aborted \<notin> set (trace c')"
    by (simp add: example_defs numeral_nat inc64_def)
  then obtain c' where c': "Next 6 ?d = Some (Returned c')" "Aborted \<notin> set (trace c')" by blast
  have b: "int (length (handlers ?d)) \<le> sentinel \<and> index ?d = - 1 \<and> trace ?d = []"
    by (simp add: example_defs sentinel_def)
  have u: "[0 ..< length (handlers ?d)] = [0, 1]" by (simp add: example_defs upt_rec)
  note t = bare_return_continues[of ?c "[Write ''a'']" 4 ?d 6 c']
  from t a obtain c1 where c1: "exec 5 [Write ''a''] (?c\<lparr>trace := trace ?c @ [Invoked (nat (index ?c))]\<rparr>) = Some (Returned c1)"
    "index c1 = index ?c" "trace c1 = trace ?c @ [Invoked (nat (index ?c))]"
    by (auto simp: numeral_nat)
  have l: "map_option (trace \<circ> ctx_of) (Next_loop 6 ?c) = Some [Invoked 0, Invoked 1, Invoked 2]"
    by (simp add: example_defs numeral_nat inc64_def)
  from t b c' u have "trace c' = [Invoked 0, Invoked 1]" by simp
  with c1 c' l show ?thesis by (auto simp: example_defs)
qed

text \<open>
  C4. Take a context whose chain is no longer than the sentinel and in which \<open>Abort\<close>
  has not been called yet. In the log of any result of running the chain from it
  (\<open>Next\<close>), and in the log of any result of handling the whole request
  (\<open>safelyHandle\<close>, hooks included), no handler invocation follows a call of
  \<open>Abort\<close>: after \<open>Abort\<close> no handler at all is invoked, whatever its position, however
  often \<open>Next\<close> is called again.
\<close>

theorem abort_stops_the_chain:
  assumes "int (length (handlers c)) \<le> sentinel" and "Aborted \<notin> set (trace c)"
  shows "(\<forall>r. Next n c = Some r \<longrightarrow> no_call_after_abort (trace (ctx_of r))) \<and>
         (\<forall>r. safelyHandle n engine c = Some r \<longrightarrow> no_call_after_abort (trace (ctx_of r)))"
proof (intro conjI allI impI)
  from assms(2) have h: "halted (- 2) (handlers c) c"
    by (simp add: halted_def no_abort_no_call_after)
  {
    fix r assume "Next n c = Some r"
    with runner_halted[OF assms(1), of "- 2" n c r] h have "halted_result (- 2) (handlers c) r" by simp
    then show "no_call_after_abort (trace (ctx_of r))" by (cases r) (auto simp: halted_def)
  next
    fix r assume s: "safelyHandle n engine c = Some r"
    then obtain r1 r2 where r1: "handle_body n engine c = Some r1"
      and r2: "inner_deferred n engine r1 = Some r2" and r: "r = outer_deferred r2"
      by (auto simp: safelyHandle_def split: option.splits)
    from handle_body_halted[OF assms(1) h r1] have "halted (- 1) (handlers c) (ctx_of r1)" .
    from inner_deferred_halted[OF assms(1) this r2] r
    show "no_call_after_abort (trace (ctx_of r))" by simp
  }
qed

text \<open>The first handler calls \<open>Abort\<close> and then \<open>Next\<close>: the second handler is never invoked.\<close>

theorem abort_stops_the_chain_witness:
  "int (length (handlers (chain_context [Func [CallAbort, CallNext], Func [Write ''b'']]))) \<le> sentinel \<and>
   Aborted \<notin> set (trace (chain_context [Func [CallAbort, CallNext], Func [Write ''b'']])) \<and>
   (\<exists>r. Next 6 (chain_context [Func [CallAbort, CallNext], Func [Write ''b'']]) = Some r \<and>
        trace (ctx_of r) = [Invoked 0, Aborted] \<and> no_call_after_abort (trace (ctx_of r))) \<and>
   (\<exists>r. safelyHandle 6 quiet_engine (chain_context [Func [CallAbort, CallNext], Func [Write ''b'']]) = Some r \<and>
        no_call_after_abort (trace (ctx_of r)))"
proof -
  let ?c = "chain_context [Func [CallAbort, CallNext], Func [Write ''b'']]"
  have h1: "int (length (handlers ?c)) \<le> sentinel" by (simp add: example_defs sentinel_def)
  have h2: "Aborted \<notin> set (trace ?c)" by (simp add: example_defs)
  note t = abort_stops_the_chain[OF h1 h2, of 6 quiet_engine]
  have e1: "\<exists>r. Next 6 ?c = Some r \<and> trace (ctx_of r) = [Invoked 0, Aborted]"
    by (simp add: example_defs numeral_nat inc64_def sentinel_def Abort_def)
  have e2: "\<exists>r. safelyHandle 6 quiet_engine ?c = Some r"
    using safelyHandle_returns[of ?c 6 quiet_engine] h1 by (auto simp: example_defs)
  from t e1 e2 h1 h2 show ?thesis by blast
qed

section \<open>The two recovery scopes\<close>



text \<open>
  C7, as amended. For a context whose chain is no longer than the sentinel,
  \<open>safelyHandle\<close> returns normally once the call depth suffices. When the inner
  deferred function, that is \<open>Post_Process\<close>, panics with description \<open>m\<close>, the outer
  scope calls \<open>Write\<close> with \<open>m\<close> on the writer the context holds at that moment, and
  when that writer is the transport, \<open>m\<close> is appended to the response body. When
  \<open>Post_Process\<close> returns, the outer scope changes nothing: after a panic that the
  inner scope recovered, the dispatcher itself writes no bytes.
\<close>

theorem post_process_panic_is_written:
  assumes "int (length (handlers c)) \<le> sentinel" and "2 * length (handlers c) + 2 \<le> n"
  shows "\<exists>r r' c'. handle_body n engine c = Some r \<and> inner_deferred n engine r = Some r' \<and>
           safelyHandle n engine c = Some (Returned c') \<and>
           (case r' of
              Returned c2 \<Rightarrow> c' = c2
            | Panicked m c2 \<Rightarrow> c' = Writer_Write (Writer c2) (Raw m) c2 \<and>
                (Writer c2 = W \<longrightarrow> body (resp c') = body (resp c2) @ [Raw m]))"
proof -
  from safelyHandle_returns[OF assms, of engine] obtain r r' c' where
    *: "handle_body n engine c = Some r" "inner_deferred n engine r = Some r'"
       "safelyHandle n engine c = Some (Returned c')" "outer_deferred r' = Returned c'" by blast
  have "case r' of
          Returned c2 \<Rightarrow> c' = c2
        | Panicked m c2 \<Rightarrow> c' = Writer_Write (Writer c2) (Raw m) c2 \<and>
            (Writer c2 = W \<longrightarrow> body (resp c') = body (resp c2) @ [Raw m])"
    using *(4) by (cases r') (auto simp: outer_deferred_def Writer_Write_def transport_Write_def)
  with * show ?thesis by blast
qed

text \<open>A post-dispatch hook that panics: its description follows the handler's bytes.\<close>

theorem post_process_panic_is_written_witness:
  "int (length (handlers (chain_context [Func [Write ''a'']]))) \<le> sentinel \<and>
   2 * length (handlers (chain_context [Func [Write ''a'']])) + 2 \<le> 4 \<and>
   (\<exists>c'. safelyHandle 4 failing_hook_engine (chain_context [Func [Write ''a'']]) = Some (Returned c') \<and>
      body (resp c') = [Raw ''a'', Raw ''hook failed''])"
proof -
  let ?c = "chain_context [Func [Write ''a'']]"
  have h1: "int (length (handlers ?c)) \<le> sentinel" by (simp add: example_defs sentinel_def)
  have h2: "2 * length (handlers ?c) + 2 \<le> 4" by (simp add: example_defs)
  have e: "\<exists>c1 c2. handle_body 4 failing_hook_engine ?c = Some (Returned c1) \<and>
      inner_deferred 4 failing_hook_engine (Returned c1) = Some (Panicked ''hook failed'' c2) \<and>
      Writer c2 = W \<and> body (resp c2) = [Raw ''a'']"
    by (simp add: example_defs handle_body_def inner_deferred_def recovered_def
        Writer_Write_def transport_Write_def numeral_nat inc64_def)
  from post_process_panic_is_written[OF h1 h2, of failing_hook_engine] e h1 h2 show ?thesis
    by auto
qed

text \<open>
  A handler panics and the hooks write nothing: the request ends with the error
  recorded, no status and an empty response body.
\<close>

theorem recovered_panic_writes_nothing:
  "map_option (Err \<circ> ctx_of) (safelyHandle 4 quiet_engine (chain_context [Func [Panic ''boom'']]))
     = Some (Some ''boom'') \<and>
   map_option (body \<circ> resp \<circ> ctx_of) (safelyHandle 4 quiet_engine (chain_context [Func [Panic ''boom'']]))
     = Some [] \<and>
   map_option (status \<circ> resp \<circ> ctx_of) (safelyHandle 4 quiet_engine (chain_context [Func [Panic ''boom'']]))
     = Some None"
  by (simp add: example_defs safelyHandle_def handle_body_def inner_deferred_def outer_deferred_def
      recovered_def numeral_nat inc64_def)

section \<open>The gzip wrapper\<close>




section \<open>Admission\<close>

text \<open>
  C6. A request for which the timer case of the \<open>select\<close> runs gets exactly the bytes
  \<open>server overload\<close> appended to its (transport) response body, with no envelope;
  nothing else happens: the log of hook and handler calls stays empty, the context
  never receives a chain from the route table (its \<open>handlers\<close> stay \<open>nil\<close>), no error
  is recorded, no gzip wrapper is created, and the engine, with its permit channel,
  is unchanged.
\<close>

theorem overload_is_shed:
  "\<exists>c. ServeHTTP n TimerFired engine w req = Some (engine, Returned c) \<and>
       body (resp c) = body w @ [Raw ''server overload''] \<and>
       header (resp c) = header w \<and>
       trace c = [] \<and> handlers c = [] \<and> Err c = None \<and> gzs c = [] \<and>
       Writer c = W \<and> index c = - 1"
  by (simp add: ServeHTTP_def new_context_def Writer_Write_def transport_Write_def)

lemma receive_send [simp]: "receive (send ch) = ch"
  by (simp add: send_def receive_def)

text \<open>
  A request that takes a permit gives it back: when the send case of the \<open>select\<close>
  runs and the chain found is no longer than the sentinel, \<open>ServeHTTP\<close> returns
  normally with the channel holding as many values as before.
\<close>

lemma permit_is_released:
  assumes "buffered (ConcurrenceNumSem engine) < capacity (ConcurrenceNumSem engine)"
    and "hs = view engine (find_handlers (trees engine) (Method req) (Path req) nil)"
    and "int (length hs) \<le> sentinel" and "2 * length hs + 2 \<le> n"
  shows "\<exists>c. ServeHTTP n SendPermit engine w req = Some (engine, Returned c)"
proof -
  let ?e = "engine\<lparr>ConcurrenceNumSem := send (ConcurrenceNumSem engine)\<rparr>"
  let ?c = "(new_context req w)\<lparr>handlers := hs\<rparr>"
  have v: "view ?e (find_handlers (trees ?e) (Method req) (Path req) nil) = hs"
    using assms(2) view_arrays[of ?e engine] by simp
  from safelyHandle_returns[of ?c n ?e] assms(3,4)
  obtain c where c: "safelyHandle n ?e ?c = Some (Returned c)" by auto
  have "?e\<lparr>ConcurrenceNumSem := receive (ConcurrenceNumSem ?e)\<rparr> = engine" by simp
  with c v assms(1) show ?thesis by (simp add: ServeHTTP_def Let_def)
qed

section \<open>Route lookup\<close>

text \<open>
  The loop of \<open>ServeHTTP\<close> returns the chain of the first entry, in the order of
  registration, whose method is the request's and whose \<open>path\<close> field equals the
  request path or whose \<open>regexp\<close> field is set and matches it; \<open>nil\<close> when there is none.
\<close>

lemma find_handlers_first:
  "find_handlers ts m p hs =
     (case find (\<lambda>v. entry_matches v m p) ts of None \<Rightarrow> hs | Some v \<Rightarrow> node_handlers (root v))"
  by (induction ts) (auto simp: entry_matches_def)

text \<open>
  C3. The one route of this table is registered with \<open>RegexMatch\<close> and a pattern that
  matches \<open>/a\<close> only, so no entry accepts the empty path. All the same the lookup of
  \<open>GET\<close> with the empty path yields that route's chain, not \<open>nil\<close>: the node of a
  pattern route keeps the zero value of \<open>path\<close>, the empty string, and the loop
  compares \<open>path\<close> with the request path for every entry.
\<close>

theorem regex_route_matches_empty_path:
  "\<not> slash_a [] \<and>
   find_handlers (trees (RegexMatch 0 slash_a (Func [Write ''x'']) quiet_engine)) ''GET'' [] nil \<noteq> nil \<and>
   view (RegexMatch 0 slash_a (Func [Write ''x'']) quiet_engine)
     (find_handlers (trees (RegexMatch 0 slash_a (Func [Write ''x'']) quiet_engine)) ''GET'' [] nil)
     = [Func [Write ''x'']]"
  by (simp add: slash_a_def RegexMatch_def register_def chain_of_def append_slice_def view_def
      nil_def example_defs Let_def)

section \<open>Route groups\<close>

text \<open>
  C8. Let \<open>eng\<close> be any engine state reached from \<open>Default\<close> by calls of \<open>Group\<close>, \<open>Use\<close>
  and the registration methods, \<open>p\<close> one of its groups, and \<open>ch\<close> the group that
  \<open>Group\<close> returns for \<open>p\<close>. Then \<open>ch\<close> is a new group whose prefix has the elements of
  the prefix of \<open>p\<close>; and after any further sequence \<open>cs\<close> of such calls: every group
  that existed (the parent and the siblings among them) still has the prefix it
  had, unless \<open>cs\<close> calls \<open>Use\<close> on that very group; the child still has the prefix it
  got, unless \<open>cs\<close> calls \<open>Use\<close> on the child; and every chain registered at any moment
  is the same entry with the same elements after all the calls that follow.
\<close>

theorem group_prefix_is_copied:
  assumes "eng = reg_calls cs0 (Default wm gs)" and "p < length (groups eng)"
    and "Group p eng = (ch, eng1)"
  shows "ch = length (groups eng) \<and> ch \<noteq> p \<and> group_view eng1 ch = group_view eng p \<and>
    (\<forall>g < length (groups eng). (\<forall>c \<in> set cs. \<not> uses_group g c) \<longrightarrow>
        group_view (reg_calls cs eng1) g = group_view eng g) \<and>
    ((\<forall>c \<in> set cs. \<not> uses_group ch c) \<longrightarrow>
        group_view (reg_calls cs eng1) ch = group_view eng p) \<and>
    (\<forall>cs1 cs2 i. cs = cs1 @ cs2 \<and> i < length (trees (reg_calls cs1 eng1)) \<longrightarrow>
        trees (reg_calls cs eng1) ! i = trees (reg_calls cs1 eng1) ! i \<and>
        chain_view (reg_calls cs eng1) i = chain_view (reg_calls cs1 eng1) i)"
proof -
  from assms(1) have sep: "separated eng"
    using reg_calls_props[OF separated_Default, of cs0 wm gs] by simp
  note G = Group_step[OF sep assms(2)]
  from assms(3) have ch: "ch = fst (Group p eng)" and e1: "eng1 = snd (Group p eng)" by simp_all
  from G(2) e1 have sep1: "separated eng1" by simp
  note R = reg_calls_props[OF sep1, of cs]
  have 1: "ch = length (groups eng)" using ch G(1) by simp
  then have 2: "ch \<noteq> p" using assms(2) by simp
  have 3: "group_view eng1 ch = group_view eng p" using 1 e1 G(5) by simp
  have 4: "group_view (reg_calls cs eng1) g = group_view eng g"
    if "g < length (groups eng)" "\<forall>c \<in> set cs. \<not> uses_group g c" for g
    using that R G(3) G(6) e1 by simp
  have 5: "group_view (reg_calls cs eng1) ch = group_view eng p"
    if "\<forall>c \<in> set cs. \<not> uses_group ch c"
    using that R G(3) 1 3 e1 by simp
  have 6: "trees (reg_calls cs eng1) ! i = trees (reg_calls cs1 eng1) ! i \<and>
        chain_view (reg_calls cs eng1) i = chain_view (reg_calls cs1 eng1) i"
    if "cs = cs1 @ cs2" "i < length (trees (reg_calls cs1 eng1))" for cs1 cs2 i
  proof -
    let ?m = "reg_calls cs1 eng1"
    from reg_calls_props[OF sep1, of cs1] have sm: "separated ?m" by simp
    note M = reg_calls_props[OF sm, of cs2]
    from M have "take (length (trees ?m)) (trees (reg_calls cs2 ?m)) = trees ?m" by simp
    then have "take (length (trees ?m)) (trees (reg_calls cs2 ?m)) ! i = trees ?m ! i" by simp
    with that(2) have "trees (reg_calls cs2 ?m) ! i = trees ?m ! i" by simp
    with M that show ?thesis by (simp add: reg_calls_append)
  qed
  from 1 2 3 4 5 6 show ?thesis by blast
qed

text \<open>
  A parent with one middleware, a child that gets a second one and registers a
  route: the parent keeps its prefix, the chain has the child's prefix and the
  handler.
\<close>

lemmas reg_defs = reg_calls_def Group_def Use_def register_def chain_of_def append_slice_def
  view_def write_at_def nil_def group_view_def chain_view_def roomy_engine_def Default_def Let_def

theorem group_prefix_is_copied_witness:
  "0 < length (groups (reg_calls [CallUse 0 [Func [Write ''A'']]] roomy_engine)) \<and>
   fst (Group 0 (reg_calls [CallUse 0 [Func [Write ''A'']]] roomy_engine)) = 1 \<and>
   group_view (snd (Group 0 (reg_calls [CallUse 0 [Func [Write ''A'']]] roomy_engine))) 1
     = [Func [Write ''A'']] \<and>
   group_view
     (reg_calls [CallUse 1 [Func [Write ''B'']], CallRegister ''GET'' ''/x'' None 1 (Func [Write ''H''])]
        (snd (Group 0 (reg_calls [CallUse 0 [Func [Write ''A'']]] roomy_engine)))) 0
     = [Func [Write ''A'']] \<and>
   group_view
     (reg_calls [CallUse 1 [Func [Write ''B'']], CallRegister ''GET'' ''/x'' None 1 (Func [Write ''H''])]
        (snd (Group 0 (reg_calls [CallUse 0 [Func [Write ''A'']]] roomy_engine)))) 1
     = [Func [Write ''A''], Func [Write ''B'']] \<and>
   chain_view
     (reg_calls [CallUse 1 [Func [Write ''B'']], CallRegister ''GET'' ''/x'' None 1 (Func [Write ''H''])]
        (snd (Group 0 (reg_calls [CallUse 0 [Func [Write ''A'']]] roomy_engine)))) 0
     = [Func [Write ''A''], Func [Write ''B''], Func [Write ''H'']]"
proof -
  let ?E = "reg_calls [CallUse 0 [Func [Write ''A'']]] roomy_engine"
  let ?cs = "[CallUse 1 [Func [Write ''B'']], CallRegister ''GET'' ''/x'' None 1 (Func [Write ''H''])]"
  have h1: "?E = reg_calls [CallUse 0 [Func [Write ''A'']]] (Default \<lparr>Pre_Process = [], Post_Process = []\<rparr> (\<lambda>n. n + 2))"
    by (simp add: roomy_engine_def)
  have h2: "0 < length (groups ?E)" by (simp add: reg_defs)
  have h3: "Group 0 ?E = (fst (Group 0 ?E), snd (Group 0 ?E))" by simp
  note t = group_prefix_is_copied[OF h1 h2 h3, of ?cs]
  have a: "group_view ?E 0 = [Func [Write ''A'']]" by (simp add: reg_defs)
  have n: "\<forall>c \<in> set ?cs. \<not> uses_group 0 c" by simp
  have l: "length (groups ?E) = 1" by (simp add: reg_defs)
  from t have t1: "fst (Group 0 ?E) = length (groups ?E)" by (rule conjunct1)
  from t have t3: "group_view (snd (Group 0 ?E)) (fst (Group 0 ?E)) = group_view ?E 0"
    by (elim conjE)
  from t have t4: "\<forall>g < length (groups ?E). (\<forall>c \<in> set ?cs. \<not> uses_group g c) \<longrightarrow>
        group_view (reg_calls ?cs (snd (Group 0 ?E))) g = group_view ?E g"
    by (elim conjE)
  from t4 h2 n have "group_view (reg_calls ?cs (snd (Group 0 ?E))) 0 = group_view ?E 0" by blast
  from this a have p: "group_view (reg_calls ?cs (snd (Group 0 ?E))) 0 = [Func [Write ''A'']]"
    by (rule trans)
  from t1 l have c1: "fst (Group 0 ?E) = 1" by (rule trans)
  from t3 a have "group_view (snd (Group 0 ?E)) (fst (Group 0 ?E)) = [Func [Write ''A'']]"
    by (rule trans)
  then have c2: "group_view (snd (Group 0 ?E)) 1 = [Func [Write ''A'']]"
    unfolding c1 .
  have d: "group_view (reg_calls ?cs (snd (Group 0 ?E))) 1 = [Func [Write ''A''], Func [Write ''B'']]"
    by (simp add: reg_defs)
  have e: "chain_view (reg_calls ?cs (snd (Group 0 ?E))) 0
      = [Func [Write ''A''], Func [Write ''B''], Func [Write ''H'']]"
    by (simp add: reg_defs)
  from h2 p c1 c2 d e show ?thesis by (intro conjI)
qed

end
